theory Spec2Isabelle
  imports Complex_Main
begin

section \<open>Data model of \<open>training/memory.py\<close>\<close>

text \<open>
  Priorities are numpy floats in the source; they are modelled as exact reals, so every
  statement below is about the arithmetic the code performs, without rounding. A numpy
  division by zero gives \<open>inf\<close> or \<open>nan\<close> and no exception, where HOL gives 0: statements
  about a computed quotient assume a positive \<open>total_priority\<close>.
  Indices are natural numbers wherever the source computes them itself; the negative
  indices the source writes out (\<open>batch[-(i + 1)]\<close>, \<open>tree[-capacity:]\<close>) are modelled
  by \<open>py_get\<close>, \<open>py_set\<close> and \<open>py_last_n\<close>.
\<close>

datatype error = ValueError | IndexError | AttributeError | TypeError | FileNotFoundError

record 'a SumTree =
  capacity :: nat
  tree :: "real list"
  data :: "'a option list"
  data_pointer :: nat

text \<open>The position that Python's index \<open>i\<close> names in a sequence of \<open>len\<close> items: a
  negative index counts from the end; \<open>None\<close> stands for IndexError.\<close>

definition py_index :: "nat \<Rightarrow> int \<Rightarrow> nat option" where
  "py_index len i =
     (if 0 \<le> i \<and> i < int len then Some (nat i)
      else if i < 0 \<and> - int len \<le> i then Some (nat (int len + i))
      else None)"

definition py_get :: "'a list \<Rightarrow> int \<Rightarrow> error + 'a" where
  "py_get xs i = (case py_index (length xs) i of None \<Rightarrow> Inl IndexError | Some j \<Rightarrow> Inr (xs ! j))"

definition py_set :: "'a list \<Rightarrow> int \<Rightarrow> 'a \<Rightarrow> error + 'a list" where
  "py_set xs i v =
     (case py_index (length xs) i of None \<Rightarrow> Inl IndexError | Some j \<Rightarrow> Inr (xs[j := v]))"

text \<open>The slice \<open>xs[-n:]\<close>; for \<open>n = 0\<close> Python reads it as \<open>xs[0:]\<close>.\<close>

definition py_last_n :: "'a list \<Rightarrow> nat \<Rightarrow> 'a list" where
  "py_last_n xs n = (if n = 0 then xs else drop (length xs - n) xs)"

subsection \<open>SumTree\<close>

text \<open>
  \<open>SumTree.__init__\<close>: \<open>np.zeros(2 * capacity - 1)\<close> raises ValueError for a
  negative dimension, which for a natural capacity is the case \<open>capacity = 0\<close>.
  The data slots hold the integer 0 until they are written; that is \<open>None\<close> here.
\<close>

definition SumTree_init :: "nat \<Rightarrow> error + 'a SumTree" where
  "SumTree_init cap =
     (if cap = 0 then Inl ValueError
      else Inr \<lparr>capacity = cap, tree = replicate (2 * cap - 1) 0,
                data = replicate cap None, data_pointer = 0\<rparr>)"

text \<open>The \<open>while tree_index != 0\<close> loop of \<open>SumTree.update\<close>.\<close>

function propagate :: "real list \<Rightarrow> nat \<Rightarrow> real \<Rightarrow> real list" where
  "propagate tr tree_index change =
     (if tree_index \<noteq> 0
      then (let tree_index' = (tree_index - 1) div 2
            in propagate (tr[tree_index' := tr ! tree_index' + change]) tree_index' change)
      else tr)"
  by pat_completeness auto
termination
  by (relation "measure (\<lambda>(tr, tree_index, change). tree_index)") auto

declare propagate.simps [simp del]

definition update :: "'a SumTree \<Rightarrow> nat \<Rightarrow> real \<Rightarrow> error + 'a SumTree" where
  "update t tree_index priority =
     (if length (tree t) \<le> tree_index then Inl IndexError
      else (let change = priority - tree t ! tree_index;
                tr = (tree t)[tree_index := priority]
            in Inr (t\<lparr>tree := propagate tr tree_index change\<rparr>)))"

text \<open>A sequence of \<open>update\<close> calls; the first exception ends it.\<close>

fun update_all :: "'a SumTree \<Rightarrow> (nat \<times> real) list \<Rightarrow> error + 'a SumTree" where
  "update_all t [] = Inr t"
| "update_all t ((ti, p) # rest) =
     (case update t ti p of Inl e \<Rightarrow> Inl e | Inr t' \<Rightarrow> update_all t' rest)"

text \<open>\<open>SumTree.total_priority\<close>: \<open>tree[0]\<close>.\<close>

definition total_priority :: "'a SumTree \<Rightarrow> error + real" where
  "total_priority t = (if tree t = [] then Inl IndexError else Inr (tree t ! 0))"

text \<open>The leaf slice \<open>tree[-capacity:]\<close> that \<open>add\<close> and \<open>sample\<close> read.\<close>

definition leaf_priorities :: "'a SumTree \<Rightarrow> real list" where
  "leaf_priorities t = py_last_n (tree t) (capacity t)"

text \<open>
  \<open>SumTree.add\<close>. The leaf index \<open>data_pointer + capacity - 1\<close> is a natural number
  because every constructed tree has \<open>capacity \<ge> 1\<close>.
\<close>

definition SumTree_add :: "'a SumTree \<Rightarrow> real \<Rightarrow> 'a \<Rightarrow> error + 'a SumTree" where
  "SumTree_add t priority d =
     (let tree_index = data_pointer t + capacity t - 1
      in if length (data t) \<le> data_pointer t then Inl IndexError
         else (case update (t\<lparr>data := (data t)[data_pointer t := Some d]\<rparr>) tree_index priority of
                 Inl e \<Rightarrow> Inl e
               | Inr t' \<Rightarrow>
                   (let dp = data_pointer t' + 1
                    in Inr (t'\<lparr>data_pointer := (if capacity t' \<le> dp then 0 else dp)\<rparr>))))"

text \<open>The \<open>while True\<close> loop of \<open>SumTree.get_leaf\<close>; it ends because the index grows.\<close>

function get_leaf_loop :: "real list \<Rightarrow> nat \<Rightarrow> real \<Rightarrow> nat" where
  "get_leaf_loop tr parent_index v =
     (let left_child_index = 2 * parent_index + 1;
          right_child_index = left_child_index + 1
      in if length tr \<le> left_child_index then parent_index
         else if v \<le> tr ! left_child_index then get_leaf_loop tr left_child_index v
         else get_leaf_loop tr right_child_index (v - tr ! left_child_index))"
  by pat_completeness auto
termination
  by (relation "measure (\<lambda>(tr, parent_index, v). length tr - parent_index)") auto

declare get_leaf_loop.simps [simp del]

definition get_leaf :: "'a SumTree \<Rightarrow> real \<Rightarrow> error + (nat \<times> real \<times> 'a option)" where
  "get_leaf t v =
     (let leaf_index = get_leaf_loop (tree t) 0 v;
          data_index = int leaf_index - int (capacity t) + 1
      in if length (tree t) \<le> leaf_index then Inl IndexError
         else (case py_get (data t) data_index of
                 Inl e \<Rightarrow> Inl e
               | Inr d \<Rightarrow> Inr (leaf_index, tree t ! leaf_index, d)))"

subsection \<open>Library functions the store calls\<close>

text \<open>\<open>np.max\<close> and \<open>np.min\<close> of a one-dimensional array; both raise ValueError on an
  empty one.\<close>

definition np_max :: "real list \<Rightarrow> error + real" where
  "np_max xs = (case xs of [] \<Rightarrow> Inl ValueError | x # rest \<Rightarrow> Inr (fold max rest x))"

definition np_min :: "real list \<Rightarrow> error + real" where
  "np_min xs = (case xs of [] \<Rightarrow> Inl ValueError | x # rest \<Rightarrow> Inr (fold min rest x))"

text \<open>
  \<open>np.power\<close> and \<open>**\<close> on floats, as the real power. The two agree only for a
  positive base (numpy gives \<open>inf\<close> for \<open>0 ** negative\<close> and \<open>nan\<close> for a negative
  base); statements about a computed power below carry that condition.
\<close>

definition np_power :: "real \<Rightarrow> real \<Rightarrow> real" where
  "np_power x y = x powr y"

text \<open>\<open>deque.append\<close> on a deque with an optional \<open>maxlen\<close>: a full bounded deque drops
  items from the left.\<close>

definition deque_append :: "'a list \<Rightarrow> nat option \<Rightarrow> 'a \<Rightarrow> 'a list" where
  "deque_append xs maxlen x =
     (case maxlen of
        None \<Rightarrow> xs @ [x]
      | Some m \<Rightarrow> (let ys = xs @ [x] in drop (length ys - m) ys))"

text \<open>\<open>itertools.islice(xs, start, stop)\<close>; a negative bound raises ValueError.\<close>

definition islice :: "'a list \<Rightarrow> int \<Rightarrow> int \<Rightarrow> error + 'a list" where
  "islice xs start stop =
     (if start < 0 \<or> stop < 0 then Inl ValueError
      else Inr (take (nat stop - nat start) (drop (nat start) xs)))"

text \<open>
  \<open>random.sample(population, k)\<close> of the standard library: ValueError when \<open>k\<close> exceeds
  the population, otherwise \<open>k\<close> picks at distinct positions. The generator is a
  parameter: \<open>rnd i\<close> is the raw value of the \<open>i\<close>-th draw, reduced to the pool that is
  left. The picked slot is refilled with the last element of the pool, as CPython does.
\<close>

fun pick :: "(nat \<Rightarrow> nat) \<Rightarrow> 'a list \<Rightarrow> nat \<Rightarrow> nat \<Rightarrow> 'a list" where
  "pick rnd pool i 0 = []"
| "pick rnd pool i (Suc k) =
     (let j = rnd i mod length pool
      in pool ! j # pick rnd (butlast (pool[j := last pool])) (Suc i) k)"

definition random_sample :: "(nat \<Rightarrow> nat) \<Rightarrow> 'a list \<Rightarrow> nat \<Rightarrow> error + 'a list" where
  "random_sample rnd population k =
     (if length population < k then Inl ValueError else Inr (pick rnd population 0 k))"

text \<open>\<open>np.random.uniform(a, b)\<close>: \<open>a + (b - a) * u\<close> for the \<open>i\<close>-th fraction \<open>u\<close> of the
  generator, which lies in \<open>[0, 1)\<close>.\<close>

definition uniform :: "(nat \<Rightarrow> real) \<Rightarrow> nat \<Rightarrow> real \<Rightarrow> real \<Rightarrow> real" where
  "uniform us i a b = a + (b - a) * us i"

subsection \<open>ExperienceReplay\<close>

text \<open>
  The object in the attribute \<open>buffer\<close>: a \<open>deque\<close> (items and \<open>maxlen\<close>), a
  \<open>SumTree\<close>, or a plain list, which is what \<open>pickle.load\<close> gives back from a snapshot of
  a uniform store. The file at \<open>experience_path\<close> holds one such object.
\<close>

datatype 'a buffer = Deque "'a list" "nat option" | Plain "'a list" | Tree "'a SumTree"

text \<open>
  The store. \<open>er_capacity\<close> is the attribute \<open>capacity\<close> of the source (the name is taken
  by the tree's field). \<open>PER_b\<close> is the only tuning constant that is ever assigned; the
  others are the constants below. The file at \<open>experience_path\<close> is the \<open>disk\<close> argument
  of \<open>save\<close> and \<open>load\<close>.
\<close>

record 'a ExperienceReplay =
  er_capacity :: nat
  storage_size :: nat
  include_last :: nat
  prioritized :: bool
  save_experience :: bool
  PER_b :: real
  buffer :: "'a buffer"

definition PER_e :: real where "PER_e = 1 / 100"
definition PER_a :: real where "PER_a = 6 / 10"
definition PER_b0 :: real where "PER_b0 = 4 / 10"
definition PER_b_increment :: real where "PER_b_increment = 1 / 1000"
definition absolute_error_upper :: real where "absolute_error_upper = 1"

text \<open>\<open>__init__(experience_path, save, prioritized, capacity, storage_size,
  n_last_samples_included)\<close>.\<close>

definition ExperienceReplay_init ::
  "bool \<Rightarrow> bool \<Rightarrow> nat \<Rightarrow> nat \<Rightarrow> nat \<Rightarrow> error + 'a ExperienceReplay" where
  "ExperienceReplay_init save_flag prio cap storage n_last =
     (case (if prio then map_sum id Tree (SumTree_init cap) else Inr (Deque [] (Some cap))) of
        Inl e \<Rightarrow> Inl e
      | Inr b \<Rightarrow> Inr \<lparr>er_capacity = cap, storage_size = storage, include_last = n_last,
                      prioritized = prio, save_experience = save_flag, PER_b = PER_b0,
                      buffer = b\<rparr>)"

text \<open>The property \<open>buffer_size\<close>.\<close>

definition buffer_size :: "'a ExperienceReplay \<Rightarrow> nat" where
  "buffer_size st =
     (case buffer st of
        Tree t \<Rightarrow> data_pointer t
      | Deque xs maxlen \<Rightarrow> length xs
      | Plain xs \<Rightarrow> length xs)"

text \<open>\<open>add\<close>. A store whose flag and buffer disagree (possible only after \<open>load\<close>) fails
  with AttributeError on the first attribute the buffer does not have: \<open>append\<close> for a
  tree, \<open>popleft\<close> for a list, \<open>tree\<close> for a deque or a list.\<close>

definition add :: "'a ExperienceReplay \<Rightarrow> 'a \<Rightarrow> error + 'a ExperienceReplay" where
  "add st experiences =
     (if \<not> prioritized st then
        (case buffer st of
           Tree t \<Rightarrow> Inl AttributeError
         | Plain xs \<Rightarrow>
             (if er_capacity st < length (xs @ [experiences]) then Inl AttributeError
              else Inr (st\<lparr>buffer := Plain (xs @ [experiences])\<rparr>))
         | Deque xs maxlen \<Rightarrow>
             (let ys = deque_append xs maxlen experiences;
                  zs = (if er_capacity st < length ys then tl ys else ys)
              in Inr (st\<lparr>buffer := Deque zs maxlen\<rparr>)))
      else
        (case buffer st of
           Deque xs maxlen \<Rightarrow> Inl AttributeError
         | Plain xs \<Rightarrow> Inl AttributeError
         | Tree t \<Rightarrow>
             (case np_max (leaf_priorities t) of
                Inl e \<Rightarrow> Inl e
              | Inr m \<Rightarrow>
                  (let max_priority = (if m = 0 then absolute_error_upper else m)
                   in (case SumTree_add t max_priority experiences of
                         Inl e \<Rightarrow> Inl e
                       | Inr t' \<Rightarrow> Inr (st\<lparr>buffer := Tree t'\<rparr>))))))"

text \<open>A sequence of \<open>add\<close> calls.\<close>

fun add_all :: "'a ExperienceReplay \<Rightarrow> 'a list \<Rightarrow> error + 'a ExperienceReplay" where
  "add_all st [] = Inr st"
| "add_all st (x # xs) = (case add st x of Inl e \<Rightarrow> Inl e | Inr st' \<Rightarrow> add_all st' xs)"

text \<open>What \<open>sample\<close> returns: \<open>(None, batch, None)\<close> with a batch of records or of traces,
  or \<open>(b_idx, memory_b, b_ISWeights)\<close>.\<close>

datatype 'a sampled =
    Records "'a list"
  | Traces "'a list list"
  | Weighted "nat list" "'a option list" "real list"

text \<open>The loop \<open>for i in range(self.include_last)\<close> of the uniform branch.\<close>

fun force_last :: "'a list \<Rightarrow> 'a list \<Rightarrow> nat list \<Rightarrow> error + 'a list" where
  "force_last batch buf [] = Inr batch"
| "force_last batch buf (i # rest) =
     (let index = - (int i + 1)
      in (case py_get buf index of
            Inl e \<Rightarrow> Inl e
          | Inr x \<Rightarrow>
              (case py_set batch index x of
                 Inl e \<Rightarrow> Inl e
               | Inr batch' \<Rightarrow> force_last batch' buf rest)))"

text \<open>The loop \<open>for i in range(batch_size)\<close> of the prioritized branch; each round yields
  \<open>(index, data, weight)\<close>.\<close>

fun weighted_draws ::
  "'a SumTree \<Rightarrow> real \<Rightarrow> real \<Rightarrow> real \<Rightarrow> nat \<Rightarrow> real \<Rightarrow> (nat \<Rightarrow> real) \<Rightarrow> nat list \<Rightarrow>
     error + (nat \<times> 'a option \<times> real) list" where
  "weighted_draws t priority_segment total_p b batch_size max_weight us [] = Inr []"
| "weighted_draws t priority_segment total_p b batch_size max_weight us (i # rest) =
     (let lo = priority_segment * real i;
          hi = priority_segment * real (i + 1);
          v = uniform us i lo hi
      in (case get_leaf t v of
            Inl e \<Rightarrow> Inl e
          | Inr (index, priority, d) \<Rightarrow>
              (let sampling_probabilities = priority / total_p;
                   w = np_power (real batch_size * sampling_probabilities) (- b) / max_weight
               in (case weighted_draws t priority_segment total_p b batch_size max_weight us rest of
                     Inl e \<Rightarrow> Inl e
                   | Inr rows \<Rightarrow> Inr ((index, d, w) # rows)))))"

text \<open>The minimum probability and the maximal weight of the prioritized branch.\<close>

definition p_min_of :: "'a SumTree \<Rightarrow> real \<Rightarrow> error + real" where
  "p_min_of t total_p = (case np_min (leaf_priorities t) of Inl e \<Rightarrow> Inl e | Inr m \<Rightarrow> Inr (m / total_p))"

definition max_weight_of :: "real \<Rightarrow> nat \<Rightarrow> real \<Rightarrow> real" where
  "max_weight_of p_min batch_size b =
     (if p_min = 0 then 1 / 10000000 else np_power (p_min * real batch_size) (- b))"

text \<open>The uniform branch of \<open>sample\<close> on the items \<open>xs\<close> of a deque or a list.\<close>

definition sample_items ::
  "'a ExperienceReplay \<Rightarrow> 'a list \<Rightarrow> nat \<Rightarrow> nat \<Rightarrow> (nat \<Rightarrow> nat) \<Rightarrow>
     error + ('a ExperienceReplay \<times> 'a sampled)" where
  "sample_items st xs batch_size trace_length rnd =
     (if 1 < trace_length then
        (case random_sample rnd [0..<buffer_size st - trace_length] batch_size of
           Inl e \<Rightarrow> Inl e
         | Inr points \<Rightarrow>
             Inr (st, Traces (map (\<lambda>point. take trace_length (drop point xs)) points)))
      else
        (case random_sample rnd xs batch_size of
           Inl e \<Rightarrow> Inl e
         | Inr batch \<Rightarrow>
             (case force_last batch xs [0..<include_last st] of
                Inl e \<Rightarrow> Inl e
              | Inr batch' \<Rightarrow> Inr (st, Records batch'))))"

text \<open>
  \<open>sample(batch_size, trace_length)\<close> with the two generators \<open>rnd\<close> (for \<open>random.sample\<close>)
  and \<open>us\<close> (for \<open>np.random.uniform\<close>). It returns the store, whose \<open>PER_b\<close> the
  prioritized branch assigns, and the sampled tuple. A tree in a uniform store is neither
  iterable nor a sequence: TypeError, unless \<open>random.sample\<close> on the range of offsets
  fails first or draws no offset at all. A deque or a list in a prioritized store has no
  \<open>total_priority\<close>.
\<close>

definition sample ::
  "'a ExperienceReplay \<Rightarrow> nat \<Rightarrow> nat \<Rightarrow> (nat \<Rightarrow> nat) \<Rightarrow> (nat \<Rightarrow> real) \<Rightarrow>
     error + ('a ExperienceReplay \<times> 'a sampled)" where
  "sample st batch_size trace_length rnd us =
     (if \<not> prioritized st then
        (case buffer st of
           Tree t \<Rightarrow>
             (if 1 < trace_length then
                (case random_sample rnd [0..<buffer_size st - trace_length] batch_size of
                   Inl e \<Rightarrow> Inl e
                 | Inr points \<Rightarrow> (if points = [] then Inr (st, Traces []) else Inl TypeError))
              else Inl TypeError)
         | Deque xs maxlen \<Rightarrow> sample_items st xs batch_size trace_length rnd
         | Plain xs \<Rightarrow> sample_items st xs batch_size trace_length rnd)
      else
        (case buffer st of
           Deque xs maxlen \<Rightarrow> Inl AttributeError
         | Plain xs \<Rightarrow> Inl AttributeError
         | Tree t \<Rightarrow>
             (case total_priority t of
                Inl e \<Rightarrow> Inl e
              | Inr total_p \<Rightarrow>
                  (let priority_segment = total_p / real batch_size;
                       b = min 1 (PER_b st + PER_b_increment)
                   in (case p_min_of t total_p of
                         Inl e \<Rightarrow> Inl e
                       | Inr p_min \<Rightarrow>
                           (let max_weight = max_weight_of p_min batch_size b
                            in (case weighted_draws t priority_segment total_p b batch_size
                                       max_weight us [0..<batch_size] of
                                  Inl e \<Rightarrow> Inl e
                                | Inr rows \<Rightarrow>
                                    Inr (st\<lparr>PER_b := b\<rparr>,
                                         Weighted (map fst rows) (map (fst \<circ> snd) rows)
                                           (map (snd \<circ> snd) rows)))))))))"

text \<open>
  \<open>batch_update(tree_idx, abs_errors)\<close>. The first component of the result is the
  caller's \<open>abs_errors\<close> array after the call (\<open>abs_errors += self.PER_e\<close> writes into
  it); the second is the outcome. \<open>zip\<close> stops at the shorter argument.
\<close>

definition batch_update ::
  "'a ExperienceReplay \<Rightarrow> nat list \<Rightarrow> real list \<Rightarrow> real list \<times> (error + 'a ExperienceReplay)" where
  "batch_update st tree_idx abs_errors =
     (let abs_errors' = map (\<lambda>e. e + PER_e) abs_errors;
          clipped_errors = map (\<lambda>e. min e absolute_error_upper) abs_errors';
          ps = map (\<lambda>c. np_power c PER_a) clipped_errors;
          pairs = zip tree_idx ps
      in (abs_errors',
          (if pairs = [] then Inr st
           else (case buffer st of
                   Deque xs maxlen \<Rightarrow> Inl AttributeError
                 | Plain xs \<Rightarrow> Inl AttributeError
                 | Tree t \<Rightarrow>
                     (case update_all t pairs of
                        Inl e \<Rightarrow> Inl e
                      | Inr t' \<Rightarrow> Inr (st\<lparr>buffer := Tree t'\<rparr>))))))"

text \<open>
  \<open>save()\<close> on a disk that holds \<open>disk\<close> at \<open>experience_path\<close>: the file afterwards, and
  the outcome. The old file is removed before the new content is computed. \<open>islice\<close>
  checks its bounds before it asks its first argument for an iterator.
\<close>

definition save ::
  "'a ExperienceReplay \<Rightarrow> 'a buffer option \<Rightarrow> 'a buffer option \<times> (error + unit)" where
  "save st disk =
     (if \<not> save_experience st then (disk, Inr ())
      else if prioritized st then (Some (buffer st), Inr ())
      else (case islice (case buffer st of Deque xs maxlen \<Rightarrow> xs | Plain xs \<Rightarrow> xs | Tree t \<Rightarrow> [])
                   (int (buffer_size st) - int (storage_size st)) (int (buffer_size st)) of
              Inl e \<Rightarrow> (None, Inl e)
            | Inr stored_experience \<Rightarrow>
                (case buffer st of
                   Tree t \<Rightarrow> (None, Inl TypeError)
                 | Deque xs maxlen \<Rightarrow> (Some (Plain stored_experience), Inr ())
                 | Plain xs \<Rightarrow> (Some (Plain stored_experience), Inr ()))))"

text \<open>\<open>load()\<close>: the store takes the unpickled object as its buffer; the uniform store
  wraps it in an unbounded \<open>deque\<close>, which a tree does not allow.\<close>

definition load :: "'a ExperienceReplay \<Rightarrow> 'a buffer option \<Rightarrow> error + 'a ExperienceReplay" where
  "load st disk =
     (case disk of
        None \<Rightarrow> Inl FileNotFoundError
      | Some b \<Rightarrow>
          (if prioritized st then Inr (st\<lparr>buffer := b\<rparr>)
           else (case b of
                   Tree t \<Rightarrow> Inl TypeError
                 | Deque xs maxlen \<Rightarrow> Inr (st\<lparr>buffer := Deque xs None\<rparr>)
                 | Plain xs \<Rightarrow> Inr (st\<lparr>buffer := Deque xs None\<rparr>))))"

subsection \<open>The life of a store\<close>

text \<open>The calls a client makes, and a run of them on a store and its file; the first
  exception ends the run.\<close>

datatype 'a call =
    Add 'a
  | Sample nat nat "nat \<Rightarrow> nat" "nat \<Rightarrow> real"
  | Batch_update "nat list" "real list"
  | Save
  | Load

fun do_call ::
  "'a ExperienceReplay \<times> 'a buffer option \<Rightarrow> 'a call \<Rightarrow>
     error + ('a ExperienceReplay \<times> 'a buffer option)" where
  "do_call (st, disk) (Add x) = map_sum id (\<lambda>st'. (st', disk)) (add st x)"
| "do_call (st, disk) (Sample batch_size trace_length rnd us) =
     map_sum id (\<lambda>r. (fst r, disk)) (sample st batch_size trace_length rnd us)"
| "do_call (st, disk) (Batch_update tree_idx abs_errors) =
     map_sum id (\<lambda>st'. (st', disk)) (snd (batch_update st tree_idx abs_errors))"
| "do_call (st, disk) Save =
     (case snd (save st disk) of Inl e \<Rightarrow> Inl e | Inr u \<Rightarrow> Inr (st, fst (save st disk)))"
| "do_call (st, disk) Load = map_sum id (\<lambda>st'. (st', disk)) (load st disk)"

fun run_calls ::
  "'a ExperienceReplay \<times> 'a buffer option \<Rightarrow> 'a call list \<Rightarrow>
     error + ('a ExperienceReplay \<times> 'a buffer option)" where
  "run_calls w [] = Inr w"
| "run_calls w (c # cs) = (case do_call w c of Inl e \<Rightarrow> Inl e | Inr w' \<Rightarrow> run_calls w' cs)"

text \<open>The number of \<open>sample\<close> calls in a run.\<close>

fun samples_in :: "'a call list \<Rightarrow> nat" where
  "samples_in [] = 0"
| "samples_in (Sample batch_size trace_length rnd us # cs) = Suc (samples_in cs)"
| "samples_in (c # cs) = samples_in cs"

subsection \<open>Two fixed generators\<close>

text \<open>Used where a property is evaluated on a concrete store: every raw draw is 0, every
  fraction is one half.\<close>

definition first_draws :: "nat \<Rightarrow> nat" where
  "first_draws i = 0"

definition mid_draws :: "nat \<Rightarrow> real" where
  "mid_draws i = 1 / 2"

section \<open>Invariants\<close>

text \<open>Every internal node \<open>i < n - 1\<close> of a tree with \<open>n\<close> leaves is the sum of its children.\<close>

definition node_ok :: "real list \<Rightarrow> nat \<Rightarrow> bool" where
  "node_ok tr i \<longleftrightarrow> tr ! i = tr ! (2 * i + 1) + tr ! (2 * i + 2)"

definition sum_inv :: "real list \<Rightarrow> nat \<Rightarrow> bool" where
  "sum_inv tr n \<longleftrightarrow> length tr = 2 * n - 1 \<and> 0 < n \<and> (\<forall>i < n - 1. node_ok tr i)"

text \<open>The leaves of a tree with \<open>n\<close> leaves are the indices \<open>n - 1, \<dots>, 2 n - 2\<close>.\<close>

definition is_leaf :: "nat \<Rightarrow> nat \<Rightarrow> bool" where
  "is_leaf n i \<longleftrightarrow> n - 1 \<le> i \<and> i < 2 * n - 1"

text \<open>The state inside the loop of \<open>update\<close>: all internal nodes are consistent, except
  that the parent of \<open>k\<close> still lacks \<open>c\<close>.\<close>

definition pending :: "real list \<Rightarrow> nat \<Rightarrow> nat \<Rightarrow> real \<Rightarrow> bool" where
  "pending tr n k c \<longleftrightarrow>
     length tr = 2 * n - 1 \<and> 0 < n \<and> k < 2 * n - 1 \<and>
     (\<forall>i < n - 1. i \<noteq> (k - 1) div 2 \<or> k = 0 \<longrightarrow> node_ok tr i) \<and>
     (k \<noteq> 0 \<longrightarrow> tr ! ((k - 1) div 2) + c =
        tr ! (2 * ((k - 1) div 2) + 1) + tr ! (2 * ((k - 1) div 2) + 2))"

text \<open>A tree as the store builds it: the sum invariant, one data slot per leaf, the
  insertion pointer inside the ring.\<close>

definition wf_tree :: "'a SumTree \<Rightarrow> bool" where
  "wf_tree t \<longleftrightarrow>
     sum_inv (tree t) (capacity t) \<and> length (data t) = capacity t \<and> data_pointer t < capacity t"

text \<open>The leaves below node \<open>i\<close> of an array of length \<open>len\<close>, from left to right: the
  order in which the descent of \<open>get_leaf\<close> lays out the priority mass.\<close>

function leaves_under :: "nat \<Rightarrow> nat \<Rightarrow> nat list" where
  "leaves_under len i =
     (if len \<le> 2 * i + 1 then [i]
      else leaves_under len (2 * i + 1) @ leaves_under len (2 * i + 2))"
  by pat_completeness auto
termination
  by (relation "measure (\<lambda>(len, i). len - i)") auto

declare leaves_under.simps [simp del]

section \<open>The sum tree keeps its sums\<close>

lemma length_propagate [simp]: "length (propagate tr k c) = length tr"
  by (induction tr k c rule: propagate.induct) (subst propagate.simps, simp add: Let_def)

lemma propagate_above: "k \<le> j \<Longrightarrow> propagate tr k c ! j = tr ! j"
proof (induction tr k c rule: propagate.induct)
  case (1 tr k c)
  show ?case
  proof (cases "k = 0")
    case True
    then show ?thesis by (subst propagate.simps) simp
  next
    case False
    let ?p = "(k - 1) div 2"
    from False have lt: "?p < k" by simp
    with "1.prems" have "?p \<le> j" "?p \<noteq> j" by auto
    with "1.IH" [OF False refl] have "propagate (tr[?p := tr ! ?p + c]) ?p c ! j = tr ! j"
      by simp
    with False show ?thesis by (subst propagate.simps) (simp add: Let_def)
  qed
qed

lemma parent_child: "(k::nat) \<noteq> 0 \<Longrightarrow> k = 2 * ((k - 1) div 2) + 1 \<or> k = 2 * ((k - 1) div 2) + 2"
  by presburger

text \<open>Adding \<open>c\<close> to a node \<open>p\<close> whose children already carry it repairs \<open>p\<close> and leaves
  its own parent one \<open>c\<close> short.\<close>

lemma repair_node:
  assumes len: "length tr = 2 * n - 1" and p: "p < n - 1"
    and ok: "\<And>i. i < n - 1 \<Longrightarrow> i \<noteq> p \<Longrightarrow> node_ok tr i"
    and par: "tr ! p + c = tr ! (2 * p + 1) + tr ! (2 * p + 2)"
  shows "pending (tr[p := tr ! p + c]) n p c"
proof -
  define tr' where "tr' = tr[p := tr ! p + c]"
  define q where "q = (p - 1) div 2"
  have plen: "p < length tr" using p len by simp
  have other: "tr' ! j = tr ! j" if "j \<noteq> p" for j using that by (simp add: tr'_def)
  have self: "tr' ! p = tr ! p + c" using plen by (simp add: tr'_def)
  have a: "node_ok tr' i" if i: "i < n - 1" and ne: "i \<noteq> q \<or> p = 0" for i
  proof (cases "i = p")
    case True
    have "2 * p + 1 \<noteq> p" "2 * p + 2 \<noteq> p" by simp_all
    then show ?thesis using par self True by (simp add: node_ok_def other)
  next
    case False
    from ne have "2 * i + 1 \<noteq> p" "2 * i + 2 \<noteq> p" unfolding q_def by presburger+
    with False ok [OF i False] show ?thesis by (simp add: node_ok_def other)
  qed
  have b: "tr' ! q + c = tr' ! (2 * q + 1) + tr' ! (2 * q + 2)" if p0: "p \<noteq> 0"
  proof -
    from p0 have qp: "q < p" by (simp add: q_def)
    then have qn: "q < n - 1" "q \<noteq> p" using p by auto
    from ok [OF qn] have q: "tr ! q = tr ! (2 * q + 1) + tr ! (2 * q + 2)" by (simp add: node_ok_def)
    have tq: "tr' ! q = tr ! q" using qn by (simp add: other)
    from parent_child [OF p0] have "p = 2 * q + 1 \<or> p = 2 * q + 2" by (simp add: q_def)
    then show ?thesis
    proof
      assume e: "p = 2 * q + 1"
      then have "2 * q + 2 \<noteq> p" by simp
      then have "tr' ! (2 * q + 2) = tr ! (2 * q + 2)" by (rule other)
      moreover have "tr' ! (2 * q + 1) = tr ! (2 * q + 1) + c" using self e by simp
      ultimately show ?thesis using q tq by simp
    next
      assume e: "p = 2 * q + 2"
      then have "2 * q + 1 \<noteq> p" by simp
      then have "tr' ! (2 * q + 1) = tr ! (2 * q + 1)" by (rule other)
      moreover have "tr' ! (2 * q + 2) = tr ! (2 * q + 2) + c" using self e by simp
      ultimately show ?thesis using q tq by simp
    qed
  qed
  have "length tr' = 2 * n - 1" "0 < n" "p < 2 * n - 1" using len p by (simp_all add: tr'_def)
  then show ?thesis
    unfolding pending_def tr'_def [symmetric] q_def [symmetric] using a b by blast
qed

lemma pending_step:
  assumes "pending tr n k c" "k \<noteq> 0"
  shows "pending (tr[(k - 1) div 2 := tr ! ((k - 1) div 2) + c]) n ((k - 1) div 2) c"
proof (rule repair_node)
  from assms show "length tr = 2 * n - 1" by (simp add: pending_def)
  from assms have "k < 2 * n - 1" by (simp add: pending_def)
  with assms(2) show "(k - 1) div 2 < n - 1" by presburger
  from assms show "tr ! ((k - 1) div 2) + c = tr ! (2 * ((k - 1) div 2) + 1) + tr ! (2 * ((k - 1) div 2) + 2)"
    by (simp add: pending_def)
  fix i assume "i < n - 1" "i \<noteq> (k - 1) div 2"
  with assms show "node_ok tr i" by (simp add: pending_def)
qed

lemma propagate_sum_inv: "pending tr n k c \<Longrightarrow> sum_inv (propagate tr k c) n"
proof (induction tr k c rule: propagate.induct)
  case (1 tr k c)
  show ?case
  proof (cases "k = 0")
    case True
    with "1.prems" show ?thesis
      by (subst propagate.simps) (simp add: pending_def sum_inv_def)
  next
    case False
    from "1.IH" [OF False refl pending_step [OF "1.prems" False]] False
    show ?thesis by (subst propagate.simps) (simp add: Let_def)
  qed
qed

lemma pending_start:
  assumes "sum_inv tr n" "is_leaf n k"
  shows "pending (tr[k := p]) n k (p - tr ! k)"
proof -
  define tr' where "tr' = tr[k := p]"
  define q where "q = (k - 1) div 2"
  from assms have len: "length tr = 2 * n - 1" and n: "0 < n" and k: "k < 2 * n - 1" "n - 1 \<le> k"
    and ok: "\<And>i. i < n - 1 \<Longrightarrow> node_ok tr i"
    by (auto simp: sum_inv_def is_leaf_def)
  have klen: "k < length tr" using k len by simp
  have other: "tr' ! j = tr ! j" if "j \<noteq> k" for j using that by (simp add: tr'_def)
  have self: "tr' ! k = p" using klen by (simp add: tr'_def)
  have a: "node_ok tr' i" if i: "i < n - 1" and ne: "i \<noteq> q \<or> k = 0" for i
  proof -
    from ne i k have "2 * i + 1 \<noteq> k" "2 * i + 2 \<noteq> k" "i \<noteq> k" unfolding q_def by presburger+
    with ok [OF i] show ?thesis by (simp add: node_ok_def other)
  qed
  have b: "tr' ! q + (p - tr ! k) = tr' ! (2 * q + 1) + tr' ! (2 * q + 2)" if k0: "k \<noteq> 0"
  proof -
    from k0 have qk: "q \<noteq> k" by (simp add: q_def)
    from k0 k have qn: "q < n - 1" unfolding q_def by presburger
    from ok [OF qn] have q: "tr ! q = tr ! (2 * q + 1) + tr ! (2 * q + 2)" by (simp add: node_ok_def)
    have tq: "tr' ! q = tr ! q" using qk by (rule other)
    from parent_child [OF k0] have "k = 2 * q + 1 \<or> k = 2 * q + 2" by (simp add: q_def)
    then show ?thesis
    proof
      assume e: "k = 2 * q + 1"
      then have "2 * q + 2 \<noteq> k" by simp
      then have "tr' ! (2 * q + 2) = tr ! (2 * q + 2)" by (rule other)
      moreover have "tr' ! (2 * q + 1) = p" "tr ! k = tr ! (2 * q + 1)" using self e by simp_all
      ultimately show ?thesis using q tq by simp
    next
      assume e: "k = 2 * q + 2"
      then have "2 * q + 1 \<noteq> k" by simp
      then have "tr' ! (2 * q + 1) = tr ! (2 * q + 1)" by (rule other)
      moreover have "tr' ! (2 * q + 2) = p" "tr ! k = tr ! (2 * q + 2)" using self e by simp_all
      ultimately show ?thesis using q tq by simp
    qed
  qed
  have "length tr' = 2 * n - 1" using len by (simp add: tr'_def)
  then show ?thesis
    unfolding pending_def tr'_def [symmetric] q_def [symmetric] using n k a b by blast
qed

lemma propagate_leaf: "k \<le> 2 * m \<Longrightarrow> m \<le> j \<Longrightarrow> propagate tr k c ! j = tr ! j"
proof (induction tr k c rule: propagate.induct)
  case (1 tr k c)
  show ?case
  proof (cases "k = 0")
    case True
    then show ?thesis by (subst propagate.simps) simp
  next
    case False
    define p where "p = (k - 1) div 2"
    from False "1.prems" have pm: "p < m" unfolding p_def by presburger
    with "1.prems" have "p \<le> 2 * m" "p \<noteq> j" by auto
    with "1.IH" [OF False refl _ "1.prems"(2)] have "propagate (tr[p := tr ! p + c]) p c ! j = tr ! j"
      by (simp add: p_def)
    with False show ?thesis by (subst propagate.simps) (simp add: Let_def p_def)
  qed
qed

lemma update_sum_inv:
  assumes "sum_inv (tree t) n" "is_leaf n k"
  shows "\<exists>t'. update t k p = Inr t' \<and> sum_inv (tree t') n \<and> tree t' ! k = p
     \<and> (\<forall>j. is_leaf n j \<and> j \<noteq> k \<longrightarrow> tree t' ! j = tree t ! j)
     \<and> capacity t' = capacity t \<and> data t' = data t \<and> data_pointer t' = data_pointer t"
proof -
  define tr' where "tr' = propagate ((tree t)[k := p]) k (p - tree t ! k)"
  from assms have klen: "k < length (tree t)" and kn: "k \<le> 2 * (n - 1)" "n - 1 \<le> k"
    by (auto simp: sum_inv_def is_leaf_def)
  have leafs: "tr' ! j = (tree t)[k := p] ! j" if "is_leaf n j" for j
    using propagate_leaf [OF kn(1), of j] that by (simp add: is_leaf_def tr'_def)
  have upd: "update t k p = Inr (t\<lparr>tree := tr'\<rparr>)"
    using klen by (simp add: update_def tr'_def Let_def)
  have inv: "sum_inv tr' n"
    unfolding tr'_def by (rule propagate_sum_inv [OF pending_start [OF assms]])
  have "tr' ! k = p" using leafs [OF assms(2)] klen by simp
  moreover have "tr' ! j = tree t ! j" if "is_leaf n j" "j \<noteq> k" for j
    using leafs [OF that(1)] that(2) by simp
  ultimately show ?thesis using upd inv by simp
qed

lemma sum_children:
  "(\<Sum>i<(m::nat). f (2 * i + 1) + f (2 * i + 2)) = (\<Sum>j = 1..<2 * m + 1. (f j :: real))"
  by (induction m) simp_all

lemma sum_inv_root: 
  assumes "sum_inv tr n" shows "tr ! 0 = sum_list (drop (n - 1) tr)"
proof -
  define m where "m = n - 1"
  from assms have len: "length tr = 2 * m + 1" and ok: "\<And>i. i < m \<Longrightarrow> tr ! i = tr ! (2 * i + 1) + tr ! (2 * i + 2)"
    by (auto simp: sum_inv_def node_ok_def m_def)
  have "(\<Sum>i<m. tr ! i) = (\<Sum>i<m. tr ! (2 * i + 1) + tr ! (2 * i + 2))"
    using ok by simp
  also have "\<dots> = (\<Sum>j = 1..<2 * m + 1. tr ! j)" by (rule sum_children)
  finally have inner: "(\<Sum>i<m. tr ! i) = (\<Sum>j = 1..<2 * m + 1. tr ! j)" .
  have "(\<Sum>j = 0..<2 * m + 1. tr ! j) = tr ! 0 + (\<Sum>j = 1..<2 * m + 1. tr ! j)"
    by (simp add: sum.atLeast_Suc_lessThan)
  moreover have "(\<Sum>j = 0..<2 * m + 1. tr ! j) = (\<Sum>j = 0..<m. tr ! j) + (\<Sum>j = m..<2 * m + 1. tr ! j)"
    by (rule sum.atLeastLessThan_concat [symmetric]) simp_all
  moreover have "(\<Sum>j = 0..<m. tr ! j) = (\<Sum>i<m. tr ! i)" by (simp add: atLeast0LessThan)
  ultimately have "tr ! 0 = (\<Sum>j = m..<2 * m + 1. tr ! j)" using inner by simp
  also have "\<dots> = (\<Sum>i = 0..<m + 1. tr ! (i + m))"
    using sum.shift_bounds_nat_ivl [of "\<lambda>j. tr ! j" 0 m "m + 1"] by (simp add: add.commute mult_2)
  also have "\<dots> = sum_list (drop m tr)"
    using len by (simp add: sum_list_sum_nth add.commute)
  finally show ?thesis by (simp add: m_def)
qed

lemma leaf_priorities_drop: "sum_inv (tree t) (capacity t) \<Longrightarrow> leaf_priorities t = drop (capacity t - 1) (tree t)"
  by (auto simp: leaf_priorities_def py_last_n_def sum_inv_def intro: arg_cong2 [where f = drop])

lemma init_sum_inv: "SumTree_init cap = Inr t \<Longrightarrow> sum_inv (tree t) cap \<and> capacity t = cap"
  by (auto simp: SumTree_init_def sum_inv_def node_ok_def split: if_splits)

lemma update_all_sum_inv:
  "sum_inv (tree t) n \<Longrightarrow> capacity t = n \<Longrightarrow> \<forall>u \<in> set us. is_leaf n (fst u) \<Longrightarrow>
   \<exists>t'. update_all t us = Inr t' \<and> sum_inv (tree t') n \<and> capacity t' = n"
proof (induction us arbitrary: t)
  case Nil
  then show ?case by simp
next
  case (Cons u us)
  obtain ti p where u: "u = (ti, p)" by (cases u)
  with Cons.prems have "is_leaf n ti" by simp
  from update_sum_inv [OF Cons.prems(1) this, of p] obtain t1 where
    t1: "update t ti p = Inr t1" "sum_inv (tree t1) n" "capacity t1 = capacity t" by blast
  with Cons.IH [of t1] Cons.prems u show ?case by simp
qed

text \<open>
  C4. Starting from a freshly constructed tree, after any sequence of \<open>update\<close> calls on
  leaves (repeats allowed) every call has succeeded, \<open>total_priority\<close> is the sum of the
  leaf slice \<open>tree[-capacity:]\<close>, and every internal node is the sum of its two children.
\<close>

theorem update_keeps_sums:
  assumes "SumTree_init cap = Inr t0" and "\<forall>u \<in> set us. is_leaf cap (fst u)"
  shows "\<exists>t. update_all t0 us = Inr t \<and>
           total_priority t = Inr (sum_list (leaf_priorities t)) \<and>
           (\<forall>i < cap - 1. tree t ! i = tree t ! (2 * i + 1) + tree t ! (2 * i + 2))"
proof -
  from init_sum_inv [OF assms(1)] have "sum_inv (tree t0) cap" "capacity t0 = cap" by simp_all
  from update_all_sum_inv [OF this assms(2)] obtain t where
    t: "update_all t0 us = Inr t" "sum_inv (tree t) cap" "capacity t = cap" by blast
  from t(2) have ne: "tree t \<noteq> []" by (auto simp: sum_inv_def)
  have "tree t ! 0 = sum_list (leaf_priorities t)"
    using sum_inv_root [OF t(2)] leaf_priorities_drop [of t] t by simp
  with ne have "total_priority t = Inr (sum_list (leaf_priorities t))" by (simp add: total_priority_def)
  moreover from t(2) have "\<forall>i < cap - 1. tree t ! i = tree t ! (2 * i + 1) + tree t ! (2 * i + 2)"
    by (simp add: sum_inv_def node_ok_def)
  ultimately show ?thesis using t(1) by blast
qed

theorem update_keeps_sums_witness:
  "\<exists>t. update_all \<lparr>capacity = 2, tree = [0, 0, 0], data = [None, None :: unit option], data_pointer = 0\<rparr>
          [(1, 3), (2, 5), (1, 1/2)] = Inr t \<and>
           total_priority t = Inr (sum_list (leaf_priorities t)) \<and>
           (\<forall>i < (2::nat) - 1. tree t ! i = tree t ! (2 * i + 1) + tree t ! (2 * i + 2))"
  using update_keeps_sums [of 2 "\<lparr>capacity = 2, tree = [0, 0, 0], data = [None, None :: unit option], data_pointer = 0\<rparr>" "[(1, 3), (2, 5), (1, 1/2)]"]
  by (simp add: SumTree_init_def is_leaf_def eval_nat_numeral)

section \<open>Evaluating the model on concrete stores\<close>

lemmas store_eval =
  ExperienceReplay_init_def SumTree_init_def add_def SumTree_add_def update_def
  propagate.simps leaf_priorities_def py_last_n_def np_max_def np_min_def
  sample_def sample_items_def total_priority_def p_min_of_def max_weight_of_def np_power_def
  get_leaf_def get_leaf_loop.simps py_get_def py_set_def py_index_def uniform_def
  batch_update_def buffer_size_def random_sample_def deque_append_def
  absolute_error_upper_def PER_e_def PER_a_def PER_b0_def PER_b_increment_def
  first_draws_def mid_draws_def Let_def

lemmas tree_eval = wf_tree_def sum_inv_def node_ok_def is_leaf_def

section \<open>The descent of \<open>get_leaf\<close>\<close>

lemma child_bounds:
  "2 * i + 1 < 2 * n - 1 \<Longrightarrow> 2 * i + 2 < 2 * n - 1 \<and> i < n - 1" for i n :: nat
  by presburger

lemma get_leaf_loop_leaf:
  "length tr = 2 * n - 1 \<Longrightarrow> i < 2 * n - 1 \<Longrightarrow> is_leaf n (get_leaf_loop tr i v)"
proof (induction tr i v rule: get_leaf_loop.induct)
  case (1 tr i v)
  show ?case
  proof (cases "length tr \<le> 2 * i + 1")
    case True
    with "1.prems" show ?thesis
      by (subst get_leaf_loop.simps) (auto simp: is_leaf_def)
  next
    case False
    with "1.prems" have c: "2 * i + 1 < 2 * n - 1" by simp
    note cb = child_bounds [OF c]
    show ?thesis
    proof (cases "v \<le> tr ! (2 * i + 1)")
      case True
      from "1.IH"(1) [OF refl refl False True "1.prems"(1) c] False True
      show ?thesis by (subst get_leaf_loop.simps) (simp add: Let_def)
    next
      case nle: False
      from "1.IH"(2) [OF refl refl False nle "1.prems"(1)] cb False nle
      show ?thesis by (subst get_leaf_loop.simps) (simp add: Let_def)
    qed
  qed
qed

lemma py_get_nat: "j < length xs \<Longrightarrow> py_get xs (int j) = Inr (xs ! j)"
  by (simp add: py_get_def py_index_def)

lemma get_leaf_wf:
  assumes "wf_tree t"
  shows "is_leaf (capacity t) (get_leaf_loop (tree t) 0 v) \<and>
         get_leaf t v = Inr (get_leaf_loop (tree t) 0 v, tree t ! get_leaf_loop (tree t) 0 v,
                             data t ! (get_leaf_loop (tree t) 0 v - (capacity t - 1)))"
proof -
  define l where "l = get_leaf_loop (tree t) 0 v"
  from assms have len: "length (tree t) = 2 * capacity t - 1" "0 < capacity t"
    "length (data t) = capacity t" by (simp_all add: wf_tree_def sum_inv_def)
  then have leaf: "is_leaf (capacity t) l"
    unfolding l_def by (intro get_leaf_loop_leaf) simp_all
  then have b: "capacity t - 1 \<le> l" "l < 2 * capacity t - 1" by (simp_all add: is_leaf_def)
  have "py_get (data t) (int l - int (capacity t) + 1) = Inr (data t ! (l - (capacity t - 1)))"
  proof -
    have "int l - int (capacity t) + 1 = int (l - (capacity t - 1))" using b len by linarith
    moreover have "l - (capacity t - 1) < length (data t)" using b len by linarith
    ultimately show ?thesis by (simp only: py_get_nat)
  qed
  with leaf b len show ?thesis
    unfolding l_def [symmetric] by (simp add: get_leaf_def Let_def l_def [symmetric])
qed

lemma leaves_under_leaves:
  "i < 2 * n - 1 \<Longrightarrow> j \<in> set (leaves_under (2 * n - 1) i) \<Longrightarrow> is_leaf n j"
proof (induction "2 * n - 1" i arbitrary: j rule: leaves_under.induct)
  case (1 i)
  show ?case
  proof (cases "2 * n - 1 \<le> 2 * i + 1")
    case True
    with "1.prems" show ?thesis
      by (subst (asm) leaves_under.simps) (auto simp: is_leaf_def)
  next
    case False
    then have c: "2 * i + 1 < 2 * n - 1" by simp
    note cb = child_bounds [OF c]
    from "1.prems"(2) False have "j \<in> set (leaves_under (2 * n - 1) (2 * i + 1)) \<or>
        j \<in> set (leaves_under (2 * n - 1) (2 * i + 2))"
      by (subst (asm) leaves_under.simps) auto
    with "1.hyps"(1) [OF False c] "1.hyps"(2) [OF False] cb show ?thesis by blast
  qed
qed

lemma subtree_sum:
  "sum_inv tr n \<Longrightarrow> i < 2 * n - 1 \<Longrightarrow>
   sum_list (map ((!) tr) (leaves_under (2 * n - 1) i)) = tr ! i"
proof (induction "2 * n - 1" i rule: leaves_under.induct)
  case (1 i)
  show ?case
  proof (cases "2 * n - 1 \<le> 2 * i + 1")
    case True
    then show ?thesis by (subst leaves_under.simps) simp
  next
    case False
    then have c: "2 * i + 1 < 2 * n - 1" by simp
    note cb = child_bounds [OF c]
    from "1.prems"(1) cb have "tr ! i = tr ! (2 * i + 1) + tr ! (2 * i + 2)"
      by (simp add: sum_inv_def node_ok_def)
    with "1.hyps"(1) [OF False "1.prems"(1) c] "1.hyps"(2) [OF False "1.prems"(1)] cb False
    show ?thesis by (subst leaves_under.simps) simp
  qed
qed

lemma descent:
  "sum_inv tr n \<Longrightarrow> i < 2 * n - 1 \<Longrightarrow> 0 \<le> v \<Longrightarrow> v \<le> tr ! i \<Longrightarrow>
    \<exists>pre post. leaves_under (2 * n - 1) i = pre @ get_leaf_loop tr i v # post \<and>
       sum_list (map ((!) tr) pre) \<le> v \<and>
       v \<le> sum_list (map ((!) tr) pre) + tr ! get_leaf_loop tr i v \<and>
       (0 < v \<longrightarrow> sum_list (map ((!) tr) pre) < v)"
proof (induction tr i v rule: get_leaf_loop.induct)
  case (1 tr i v)
  note inv = "1.prems"(1)
  from inv have len: "length tr = 2 * n - 1" by (simp add: sum_inv_def)
  let ?S = "\<lambda>ls. sum_list (map ((!) tr) ls)"
  show ?case
  proof (cases "length tr \<le> 2 * i + 1")
    case True
    then have l: "get_leaf_loop tr i v = i" by (subst get_leaf_loop.simps) simp
    have "leaves_under (2 * n - 1) i = [] @ i # []"
      using True len by (subst leaves_under.simps) simp
    with "1.prems"(3,4) show ?thesis unfolding l by fastforce
  next
    case False
    with len have c: "2 * i + 1 < 2 * n - 1" by simp
    note cb = child_bounds [OF c]
    from inv cb have node: "tr ! i = tr ! (2 * i + 1) + tr ! (2 * i + 2)"
      by (simp add: sum_inv_def node_ok_def)
    have split: "leaves_under (2 * n - 1) i =
        leaves_under (2 * n - 1) (2 * i + 1) @ leaves_under (2 * n - 1) (2 * i + 2)"
      using c by (subst leaves_under.simps) simp
    show ?thesis
    proof (cases "v \<le> tr ! (2 * i + 1)")
      case True
      have l: "get_leaf_loop tr i v = get_leaf_loop tr (2 * i + 1) v"
        using False True by (subst get_leaf_loop.simps) (simp add: Let_def)
      from "1.IH"(1) [OF refl refl False True inv c "1.prems"(3) True] obtain pre post where
        p: "leaves_under (2 * n - 1) (2 * i + 1) = pre @ get_leaf_loop tr (2 * i + 1) v # post"
          "?S pre \<le> v" "v \<le> ?S pre + tr ! get_leaf_loop tr (2 * i + 1) v"
          "0 < v \<longrightarrow> ?S pre < v" by blast
      have "leaves_under (2 * n - 1) i =
          pre @ get_leaf_loop tr (2 * i + 1) v # (post @ leaves_under (2 * n - 1) (2 * i + 2))"
        using split p(1) by simp
      with p(2-4) show ?thesis unfolding l by blast
    next
      case nle: False
      define v' where "v' = v - tr ! (2 * i + 1)"
      have l: "get_leaf_loop tr i v = get_leaf_loop tr (2 * i + 2) v'"
        using False nle by (subst get_leaf_loop.simps) (simp add: Let_def v'_def)
      have v': "0 < v'" "v' \<le> tr ! (2 * i + 2)" using nle "1.prems"(4) node by (simp_all add: v'_def)
      have r: "2 * i + 1 + 1 < 2 * n - 1" using cb by simp
      from "1.IH"(2) [OF refl refl False nle inv r] v' obtain pre post where
        p: "leaves_under (2 * n - 1) (2 * i + 2) = pre @ get_leaf_loop tr (2 * i + 2) v' # post"
          "?S pre \<le> v'" "v' \<le> ?S pre + tr ! get_leaf_loop tr (2 * i + 2) v'"
          "?S pre < v'" by (auto simp: v'_def)
      define pre' where "pre' = leaves_under (2 * n - 1) (2 * i + 1) @ pre"
      have s: "?S pre' = tr ! (2 * i + 1) + ?S pre"
        using subtree_sum [OF inv c] by (simp add: pre'_def)
      have "leaves_under (2 * n - 1) i = pre' @ get_leaf_loop tr (2 * i + 2) v' # post"
        using split p(1) by (simp add: pre'_def)
      moreover have "?S pre' \<le> v" "v \<le> ?S pre' + tr ! get_leaf_loop tr (2 * i + 2) v'" "?S pre' < v"
        using s p(2-4) by (simp_all add: v'_def)
      ultimately show ?thesis unfolding l by blast
    qed
  qed
qed

text \<open>With a power of two as capacity the leaves appear from left to right in index order.\<close>

lemma leaves_under_perfect:
  "w = 2 ^ h \<Longrightarrow> w dvd N \<Longrightarrow> N \<le> (i + 1) * w \<Longrightarrow> (i + 1) * w < 2 * N \<Longrightarrow>
   leaves_under (2 * N - 1) i = [(i + 1) * w - 1..<(i + 2) * w - 1]"
proof (induction h arbitrary: i w)
  case 0
  then have "2 * N - 1 \<le> 2 * i + 1" by simp
  then have "leaves_under (2 * N - 1) i = [i]" by (subst leaves_under.simps) simp
  with 0 show ?case by (simp add: upt_rec)
next
  case (Suc h)
  define u where "u = (2::nat) ^ h"
  have w: "w = 2 * u" "0 < u" using Suc.prems(1) by (simp_all add: u_def)
  from Suc.prems(2) w obtain c where N: "N = 2 * u * c" by (auto simp: dvd_def)
  have k: "0 < 2 * u" using w(2) by simp
  have "2 * u * c \<le> 2 * u * (i + 1)" "2 * u * (i + 1) < 2 * u * (2 * c)"
    using Suc.prems(3,4) by (simp_all add: N w algebra_simps)
  then have ic: "c \<le> i + 1" "i + 1 < 2 * c"
    by (simp_all only: nat_mult_le_cancel1 [OF k] nat_mult_less_cancel1 [OF k])
  have c: "2 * i + 1 < 2 * N - 1"
  proof -
    have "2 \<le> w" using w by simp
    then have "(i + 1) * 2 \<le> (i + 1) * w" by (rule mult_le_mono2)
    then have "2 * i + 2 < 2 * N" using Suc.prems(4) by (simp only: mult.commute [of _ 2]) simp
    then show ?thesis by simp
  qed
  have udvd: "u dvd N" by (simp add: N)
  have l: "leaves_under (2 * N - 1) (2 * i + 1) = [(2 * i + 1 + 1) * u - 1..<(2 * i + 1 + 2) * u - 1]"
  proof (rule Suc.IH [OF u_def udvd])
    show "N \<le> (2 * i + 1 + 1) * u" using Suc.prems(3) w by (simp add: algebra_simps)
    show "(2 * i + 1 + 1) * u < 2 * N" using Suc.prems(4) w by (simp add: algebra_simps)
  qed
  have r: "leaves_under (2 * N - 1) (2 * i + 2) = [(2 * i + 2 + 1) * u - 1..<(2 * i + 2 + 2) * u - 1]"
  proof (rule Suc.IH [OF u_def udvd])
    have "N \<le> (2 * i + 2) * u" using Suc.prems(3) w by (simp add: algebra_simps)
    then show "N \<le> (2 * i + 2 + 1) * u" by (simp add: algebra_simps)
    have "2 * i + 3 < 4 * c" using ic by simp
    then have "(2 * i + 3) * u < (4 * c) * u" using w(2) by (intro mult_strict_right_mono) simp_all
    then show "(2 * i + 2 + 1) * u < 2 * N" by (simp add: N algebra_simps)
  qed
  have "leaves_under (2 * N - 1) i = leaves_under (2 * N - 1) (2 * i + 1) @ leaves_under (2 * N - 1) (2 * i + 2)"
    using c by (subst leaves_under.simps) simp
  also have "\<dots> = [(2 * i + 2) * u - 1..<(2 * i + 3) * u - 1] @ [(2 * i + 3) * u - 1..<(2 * i + 4) * u - 1]"
    unfolding l r by (simp add: numeral_3_eq_3 numeral_Bit0 algebra_simps)
  also have "\<dots> = [(2 * i + 2) * u - 1..<(2 * i + 4) * u - 1]"
  proof -
    have a: "(2 * i + 2) * u \<le> (2 * i + 3) * u" and b: "(2 * i + 3) * u \<le> (2 * i + 4) * u"
      by (rule mult_le_mono1, simp)+
    have "(2 * i + 2) * u - 1 \<le> (2 * i + 3) * u - 1" "(2 * i + 3) * u - 1 \<le> (2 * i + 4) * u - 1"
      using a b by (auto intro: diff_le_mono)
    then show ?thesis by (metis le_Suc_ex upt_add_eq_append)
  qed
  finally have "leaves_under (2 * N - 1) i = [(2 * i + 2) * u - 1..<(2 * i + 4) * u - 1]" .
  moreover have "(2 * i + 2) * u = (i + 1) * w" "(2 * i + 4) * u = (i + 2) * w"
    by (simp_all add: w algebra_simps)
  ultimately show ?case by simp
qed

lemma leaves_under_root_power_of_two:
  "leaves_under (2 * 2 ^ h - 1) 0 = [2 ^ h - 1..<2 * 2 ^ h - 1]"
  using leaves_under_perfect [of "2 ^ h" h "2 ^ h" 0] by (simp add: mult_2)

lemma upt_split_at:
  assumes "[a..<b] = pre @ l # post"
  shows "pre = [a..<l]"
proof -
  have lp: "length pre < b - a" using arg_cong [OF assms, of length] by simp
  have "l = [a..<b] ! length pre" using assms by simp
  then have l: "l = a + length pre" using lp by simp
  have "pre = take (length pre) [a..<b]" using assms by simp
  also have "\<dots> = [a..<a + length pre]" using lp by (simp add: take_upt)
  finally show ?thesis using l by simp
qed

lemma leaves_nonneg:
  assumes "wf_tree t" "\<forall>p \<in> set (leaf_priorities t). 0 \<le> p"
  shows "\<forall>j. is_leaf (capacity t) j \<longrightarrow> 0 \<le> tree t ! j"
proof (intro allI impI)
  fix j assume j: "is_leaf (capacity t) j"
  from assms(1) have inv: "sum_inv (tree t) (capacity t)" by (simp add: wf_tree_def)
  then have len: "length (tree t) = 2 * capacity t - 1" by (simp add: sum_inv_def)
  from j have b: "capacity t - 1 \<le> j" "j < 2 * capacity t - 1" by (simp_all add: is_leaf_def)
  have "tree t ! j = drop (capacity t - 1) (tree t) ! (j - (capacity t - 1))" using b len by simp
  moreover have "j - (capacity t - 1) < length (drop (capacity t - 1) (tree t))" using b len by simp
  ultimately have "tree t ! j \<in> set (leaf_priorities t)"
    unfolding leaf_priorities_drop [OF inv] by (metis nth_mem)
  with assms(2) show "0 \<le> tree t ! j" by blast
qed

lemma node_nonneg:
  assumes "sum_inv tr n" "\<forall>j. is_leaf n j \<longrightarrow> 0 \<le> tr ! j" "i < 2 * n - 1"
  shows "0 \<le> tr ! i"
proof -
  have "0 \<le> sum_list (map ((!) tr) (leaves_under (2 * n - 1) i))"
    using assms(2) leaves_under_leaves [OF assms(3)] by (intro sum_list_nonneg) auto
  then show ?thesis using subtree_sum [OF assms(1,3)] by simp
qed

lemma leaves_under_nonempty: "leaves_under len i \<noteq> []"
proof (induction len i rule: leaves_under.induct)
  case (1 len i)
  show ?case
  proof (cases "len \<le> 2 * i + 1")
    case True
    then show ?thesis by (subst leaves_under.simps) simp
  next
    case False
    with "1.IH"(1) show ?thesis by (subst leaves_under.simps) simp
  qed
qed

text \<open>A draw of exactly 0 never turns right, so it ends in the leftmost leaf.\<close>

lemma descent_zero:
  "sum_inv tr n \<Longrightarrow> \<forall>j. is_leaf n j \<longrightarrow> 0 \<le> tr ! j \<Longrightarrow> i < 2 * n - 1 \<Longrightarrow>
   get_leaf_loop tr i 0 = hd (leaves_under (2 * n - 1) i)"
proof (induction "2 * n - 1" i rule: leaves_under.induct)
  case (1 i)
  from "1.prems"(1) have len: "length tr = 2 * n - 1" by (simp add: sum_inv_def)
  show ?case
  proof (cases "2 * n - 1 \<le> 2 * i + 1")
    case True
    have "get_leaf_loop tr i 0 = i" using True len by (subst get_leaf_loop.simps) simp
    moreover have "leaves_under (2 * n - 1) i = [i]" using True by (subst leaves_under.simps) simp
    ultimately show ?thesis by simp
  next
    case False
    then have c: "2 * i + 1 < 2 * n - 1" by simp
    from node_nonneg [OF "1.prems"(1,2) c] have nn: "0 \<le> tr ! (2 * i + 1)" .
    have "get_leaf_loop tr i 0 = get_leaf_loop tr (2 * i + 1) 0"
      using c len nn by (subst get_leaf_loop.simps) (simp add: Let_def)
    also have "\<dots> = hd (leaves_under (2 * n - 1) (2 * i + 1))"
      by (rule "1.hyps"(1) [OF False "1.prems"(1,2) c])
    also have "\<dots> = hd (leaves_under (2 * n - 1) i)"
      using c leaves_under_nonempty [of "2 * n - 1" "2 * i + 1"]
      by (subst (2) leaves_under.simps) simp
    finally show ?thesis .
  qed
qed

text \<open>
  C3, as the code has it. On a tree that keeps the sum invariant and has no negative
  leaf, for \<open>0 \<le> v < total_priority\<close> the call returns a leaf \<open>l\<close>; with \<open>pre\<close> the leaves
  to the left of \<open>l\<close> in the tree, their priorities sum to at most \<open>v\<close>, and \<open>v\<close> is at
  most that sum plus the priority of \<open>l\<close> (not strictly less: a draw that hits a boundary
  goes to the left leaf). For \<open>v > 0\<close> the sum is strictly below \<open>v\<close>, so the leaf has
  positive priority; for \<open>v = 0\<close> the leaf is the leftmost one, whatever its priority.
  When the capacity is a power of two, left-to-right order is index order: \<open>pre\<close> is
  the run of leaf indices before \<open>l\<close>.
\<close>

theorem get_leaf_locates_mass:
  assumes wf: "wf_tree t" and nn: "\<forall>p \<in> set (leaf_priorities t). 0 \<le> p"
    and tot: "total_priority t = Inr total_p" and v: "0 \<le> v" "v < total_p"
  shows "\<exists>l d pre post.
      get_leaf t v = Inr (l, tree t ! l, d) \<and> is_leaf (capacity t) l \<and>
      leaves_under (length (tree t)) 0 = pre @ l # post \<and>
      sum_list (map ((!) (tree t)) pre) \<le> v \<and>
      v \<le> sum_list (map ((!) (tree t)) pre) + tree t ! l \<and>
      (0 < v \<longrightarrow> sum_list (map ((!) (tree t)) pre) < v \<and> 0 < tree t ! l) \<and>
      (v = 0 \<longrightarrow> pre = []) \<and>
      ((\<exists>h. capacity t = 2 ^ h) \<longrightarrow> pre = [capacity t - 1..<l])"
proof -
  define n where "n = capacity t"
  define tr where "tr = tree t"
  define l where "l = get_leaf_loop tr 0 v"
  from wf have inv: "sum_inv tr n" by (simp add: wf_tree_def n_def tr_def)
  then have len: "length tr = 2 * n - 1" "0 < n" by (simp_all add: sum_inv_def)
  from tot have root: "tr ! 0 = total_p" by (auto simp: total_priority_def tr_def split: if_splits)
  have i0: "0 < 2 * n - 1" using len by simp
  have vle: "v \<le> tr ! 0" using v root by simp
  from leaves_nonneg [OF wf nn] have lnn: "\<forall>j. is_leaf n j \<longrightarrow> 0 \<le> tr ! j"
    by (simp add: n_def tr_def)
  from get_leaf_wf [OF wf, of v] have
    g: "is_leaf n l" "get_leaf t v = Inr (l, tr ! l, data t ! (l - (n - 1)))"
    by (simp_all add: l_def tr_def n_def)
  have "\<exists>pre post. leaves_under (2 * n - 1) 0 = pre @ l # post \<and>
      sum_list (map ((!) tr) pre) \<le> v \<and> v \<le> sum_list (map ((!) tr) pre) + tr ! l \<and>
      (0 < v \<longrightarrow> sum_list (map ((!) tr) pre) < v) \<and> (v = 0 \<longrightarrow> pre = [])"
  proof (cases "v = 0")
    case True
    have "l = hd (leaves_under (2 * n - 1) 0)"
      unfolding l_def True by (rule descent_zero [OF inv lnn i0])
    then have "leaves_under (2 * n - 1) 0 = [] @ l # tl (leaves_under (2 * n - 1) 0)"
      using leaves_under_nonempty [of "2 * n - 1" 0] by simp
    moreover have "0 \<le> tr ! l" using lnn g(1) by blast
    ultimately show ?thesis using True by fastforce
  next
    case False
    with descent [OF inv i0 v(1) vle] show ?thesis unfolding l_def by blast
  qed
  then obtain pre post where
    p: "leaves_under (2 * n - 1) 0 = pre @ l # post"
      "sum_list (map ((!) tr) pre) \<le> v" "v \<le> sum_list (map ((!) tr) pre) + tr ! l"
      "0 < v \<longrightarrow> sum_list (map ((!) tr) pre) < v" "v = 0 \<longrightarrow> pre = []" by blast
  have pos: "0 < tr ! l" if "0 < v" using p(3,4) that by simp
  have pow: "pre = [n - 1..<l]" if "\<exists>h. n = 2 ^ h"
  proof -
    from that obtain h where h: "n = 2 ^ h" by blast
    from p(1) have "[n - 1..<2 * n - 1] = pre @ l # post"
      unfolding h leaves_under_root_power_of_two .
    then show ?thesis by (rule upt_split_at)
  qed
  show ?thesis
    using g p pos pow unfolding n_def [symmetric] tr_def [symmetric] len(1) by blast
qed

theorem get_leaf_locates_mass_witness:
  "\<exists>l d pre post.
      get_leaf \<lparr>capacity = 2, tree = [2, 1, 1], data = [Some (), Some ()], data_pointer = 0\<rparr> 1
        = Inr (l, tree \<lparr>capacity = 2, tree = [2, 1, 1], data = [Some (), Some ()],
                        data_pointer = 0\<rparr> ! l, d) \<and>
      is_leaf (capacity \<lparr>capacity = 2, tree = [2, 1, 1], data = [Some (), Some ()],
                         data_pointer = 0\<rparr>) l \<and>
      leaves_under (length (tree \<lparr>capacity = 2, tree = [2, 1, 1], data = [Some (), Some ()],
                                  data_pointer = 0\<rparr>)) 0 = pre @ l # post \<and>
      sum_list (map ((!) (tree \<lparr>capacity = 2, tree = [2, 1, 1], data = [Some (), Some ()],
                                data_pointer = 0\<rparr>)) pre) \<le> 1 \<and>
      1 \<le> sum_list (map ((!) (tree \<lparr>capacity = 2, tree = [2, 1, 1], data = [Some (), Some ()],
                                     data_pointer = 0\<rparr>)) pre)
           + tree \<lparr>capacity = 2, tree = [2, 1, 1], data = [Some (), Some ()],
                   data_pointer = 0\<rparr> ! l \<and>
      ((0::real) < 1 \<longrightarrow>
         sum_list (map ((!) (tree \<lparr>capacity = 2, tree = [2, 1, 1], data = [Some (), Some ()],
                                   data_pointer = 0\<rparr>)) pre) < 1 \<and>
         0 < tree \<lparr>capacity = 2, tree = [2, 1, 1], data = [Some (), Some ()],
                   data_pointer = 0\<rparr> ! l) \<and>
      ((1::real) = 0 \<longrightarrow> pre = []) \<and>
      ((\<exists>h. capacity \<lparr>capacity = 2, tree = [2, 1, 1], data = [Some (), Some ()],
                        data_pointer = 0\<rparr> = 2 ^ h) \<longrightarrow>
         pre = [capacity \<lparr>capacity = 2, tree = [2, 1, 1], data = [Some (), Some ()],
                          data_pointer = 0\<rparr> - 1..<l])"
  by (rule get_leaf_locates_mass [where total_p = 2])
     (simp_all add: tree_eval leaf_priorities_def py_last_n_def total_priority_def)

text \<open>
  Counterexample to C3 as stated: on the tree left by two additions to a store of capacity 2
  (priorities 1 and 1) the draw \<open>v = 1\<close> lies in \<open>[0, 2)\<close> and returns the first leaf,
  whose interval \<open>[0, 1)\<close> does not contain it.
\<close>

theorem get_leaf_boundary_counterexample:
  "total_priority \<lparr>capacity = 2, tree = [2, 1, 1], data = [Some (), Some ()], data_pointer = 0\<rparr>
     = Inr 2 \<and>
   get_leaf \<lparr>capacity = 2, tree = [2, 1, 1], data = [Some (), Some ()], data_pointer = 0\<rparr> 1
     = Inr (1, 1, Some ()) \<and>
   \<not> (1 < sum_list (map ((!) [2, 1, 1 :: real]) [2 - 1..<1]) + [2, 1, 1 :: real] ! 1)"
  by (simp add: store_eval)

text \<open>
  Two more ways in which that statement fails. After one addition to a store of
  capacity 3 the draw \<open>v = 0\<close> returns leaf 3: priority 0, never written.
\<close>

lemma get_leaf_zero_draw_example:
  "add_all \<lparr>er_capacity = 3, storage_size = 2, include_last = 0, prioritized = True,
          save_experience = False, PER_b = 4 / 10,
          buffer = Tree \<lparr>capacity = 3, tree = [0, 0, 0, 0, 0], data = [None, None, None],
                         data_pointer = 0\<rparr>\<rparr> [()]
     = Inr \<lparr>er_capacity = 3, storage_size = 2, include_last = 0, prioritized = True,
          save_experience = False, PER_b = 4 / 10,
          buffer = Tree \<lparr>capacity = 3, tree = [1, 0, 1, 0, 0], data = [Some (), None, None],
                         data_pointer = 1\<rparr>\<rparr> \<and>
   get_leaf \<lparr>capacity = 3, tree = [1, 0, 1, 0, 0], data = [Some (), None, None], data_pointer = 1\<rparr> 0
     = Inr (3, 0, None)"
  by (simp add: store_eval)

text \<open>
  With capacity 3 the leaves lie in the order 3, 4, 2 from left to right: the draw
  \<open>1/2\<close> returns leaf 3 although leaf 2, before it in index order, alone weighs 1.
\<close>

lemma get_leaf_order_example:
  "get_leaf \<lparr>capacity = 3, tree = [3, 2, 1, 1, 1], data = [Some (), Some (), Some ()],
              data_pointer = 0\<rparr> (1 / 2) = Inr (3, 1, Some ()) \<and>
   leaves_under 5 0 = [3, 4, 2] \<and>
   \<not> sum_list (map ((!) [3, 2, 1, 1, 1 :: real]) [3 - 1..<3]) \<le> 1 / 2"
  by (simp add: store_eval leaves_under.simps upt_rec)

section \<open>The annealed exponent\<close>

lemma update_all_fields: "update_all t us = Inr t' \<Longrightarrow> capacity t' = capacity t"
  by (induction t us rule: update_all.induct) (auto simp: update_def Let_def split: sum.splits if_splits)

lemma do_call_beta:
  assumes "do_call (st, disk) c = Inr (st', disk')"
  shows "prioritized st' = prioritized st \<and>
         PER_b st' = (if prioritized st \<and> samples_in [c] = 1
                      then min 1 (PER_b st + PER_b_increment) else PER_b st)"
proof (cases c)
  case (Add x)
  with assms show ?thesis
    by (auto simp: add_def Let_def split: if_splits buffer.splits sum.splits)
next
  case (Sample bs tl rnd us)
  with assms show ?thesis
    by (auto simp: sample_def sample_items_def Let_def split: if_splits buffer.splits sum.splits)
next
  case (Batch_update idx errs)
  with assms show ?thesis
    by (auto simp: batch_update_def Let_def split: if_splits buffer.splits sum.splits)
next
  case Save
  with assms show ?thesis by (auto split: sum.splits)
next
  case Load
  with assms show ?thesis
    by (auto simp: load_def split: option.splits buffer.splits if_splits)
qed

lemma min_step: "0 \<le> (d::real) \<Longrightarrow> min 1 (min 1 x + d) = min 1 (x + d)"
  by (auto simp: min_def)

lemma run_calls_beta:
  "run_calls (st, disk) cs = Inr (st', disk') \<Longrightarrow> PER_b st \<le> 1 \<Longrightarrow>
   prioritized st' = prioritized st \<and>
   PER_b st' = (if prioritized st then min 1 (PER_b st + real (samples_in cs) * PER_b_increment)
                else PER_b st)"
proof (induction cs arbitrary: st disk)
  case Nil
  then show ?case by simp
next
  case (Cons c cs)
  from Cons.prems(1) obtain st1 disk1 where
    c: "do_call (st, disk) c = Inr (st1, disk1)" and rest: "run_calls (st1, disk1) cs = Inr (st', disk')"
    by (auto split: sum.splits)
  note b = do_call_beta [OF c]
  have le: "PER_b st1 \<le> 1" using b Cons.prems(2) by (auto simp: min_def)
  note ih = Cons.IH [OF rest le]
  have s: "samples_in (c # cs) = samples_in [c] + samples_in cs" by (cases c) simp_all
  have s01: "samples_in [c] = 0 \<or> samples_in [c] = 1" by (cases c) simp_all
  show ?case
  proof (cases "prioritized st \<and> samples_in [c] = 1")
    case True
    have "min 1 (min 1 (PER_b st + PER_b_increment) + real (samples_in cs) * PER_b_increment)
          = min 1 (PER_b st + PER_b_increment + real (samples_in cs) * PER_b_increment)"
      by (rule min_step) (simp add: PER_b_increment_def)
    with True b ih s show ?thesis by (simp add: algebra_simps)
  next
    case False
    with b ih s s01 show ?thesis by auto
  qed
qed

lemma run_calls_append:
  "run_calls w (cs @ cs') = Inr w2 \<Longrightarrow> \<exists>w1. run_calls w cs = Inr w1 \<and> run_calls w1 cs' = Inr w2"
  by (induction cs arbitrary: w) (auto split: sum.splits)

lemma samples_in_append: "samples_in (cs @ cs') = samples_in cs + samples_in cs'"
  by (induction cs rule: samples_in.induct) simp_all

lemma init_fields:
  "ExperienceReplay_init sv prio cap ss nl = Inr st \<Longrightarrow>
   PER_b st = PER_b0 \<and> prioritized st = prio \<and> er_capacity st = cap \<and> storage_size st = ss
   \<and> include_last st = nl \<and> save_experience st = sv
   \<and> (if prio then \<exists>t. SumTree_init cap = Inr t \<and> buffer st = Tree t else buffer st = Deque [] (Some cap))"
  by (cases "SumTree_init cap :: error + 'a SumTree")
     (auto simp: ExperienceReplay_init_def split: if_splits)

text \<open>
  C7. Over any run of calls on a freshly constructed store, the exponent \<open>PER_b\<close> after a
  prefix of the run is \<open>min 1 (0.4 + k * 0.001)\<close> for the \<open>k\<close> sample calls of the prefix
  in prioritized mode (and stays 0.4 in uniform mode); it never drops below its initial
  value, never decreases from a prefix to the whole run, and never exceeds 1.
\<close>

theorem beta_schedule:
  assumes init: "ExperienceReplay_init sv prio cap ss nl = Inr st0"
    and run: "run_calls (st0, disk) (cs @ cs') = Inr (st2, disk2)"
  shows "\<exists>st1 disk1. run_calls (st0, disk) cs = Inr (st1, disk1) \<and>
           PER_b st1 = (if prio then min 1 (PER_b0 + real (samples_in cs) * PER_b_increment)
                        else PER_b0) \<and>
           PER_b0 \<le> PER_b st1 \<and> PER_b st1 \<le> PER_b st2 \<and> PER_b st2 \<le> 1"
proof -
  from init_fields [OF init] have f: "PER_b st0 = PER_b0" "prioritized st0 = prio" by simp_all
  have b0: "PER_b st0 \<le> 1" by (simp add: f PER_b0_def)
  from run_calls_append [OF run] obtain st1 disk1 where
    r1: "run_calls (st0, disk) cs = Inr (st1, disk1)" by fastforce
  from run_calls_beta [OF r1 b0] f have
    e1: "PER_b st1 = (if prio then min 1 (PER_b0 + real (samples_in cs) * PER_b_increment) else PER_b0)"
    by simp
  from run_calls_beta [OF run b0] f have
    e2: "PER_b st2 = (if prio then min 1 (PER_b0 + real (samples_in (cs @ cs')) * PER_b_increment) else PER_b0)"
    by simp
  have inc: "0 \<le> PER_b_increment" by (simp add: PER_b_increment_def)
  have "real (samples_in cs) * PER_b_increment \<le> real (samples_in (cs @ cs')) * PER_b_increment"
    using inc by (intro mult_right_mono) (simp_all add: samples_in_append)
  then have mono: "PER_b st1 \<le> PER_b st2" using e1 e2 by (auto simp: min_def)
  have "0 \<le> real (samples_in cs) * PER_b_increment" using inc by simp
  then have lo: "PER_b0 \<le> PER_b st1" using e1 by (auto simp: min_def PER_b0_def)
  have hi: "PER_b st2 \<le> 1" using e2 by (auto simp: PER_b0_def)
  show ?thesis using r1 e1 lo mono hi by blast
qed

theorem beta_schedule_witness:
  "\<exists>st1 disk1.
     run_calls (\<lparr>er_capacity = 1, storage_size = 1, include_last = 0, prioritized = True,
                  save_experience = False, PER_b = 4 / 10,
                  buffer = Tree \<lparr>capacity = 1, tree = [0], data = [None], data_pointer = 0\<rparr>\<rparr>, None)
        [Add (), Sample 1 1 first_draws mid_draws] = Inr (st1, disk1) \<and>
     PER_b st1 = 401 / 1000 \<and> PER_b0 \<le> PER_b st1 \<and> PER_b st1 \<le> 402 / 1000 \<and> 402 / 1000 \<le> (1::real)"
  using beta_schedule [of False True 1 1 0 _ None "[Add (), Sample 1 1 first_draws mid_draws]"
     "[Sample 1 1 first_draws mid_draws]" 
     "\<lparr>er_capacity = 1, storage_size = 1, include_last = 0, prioritized = True,
                  save_experience = False, PER_b = 402 / 1000,
                  buffer = Tree \<lparr>capacity = 1, tree = [1], data = [Some ()], data_pointer = 0\<rparr>\<rparr>" None]
  by (simp add: store_eval)

section \<open>Updating priorities\<close>

lemma zip_take_min:
  "zip xs ys = zip (take (min (length xs) (length ys)) xs) (take (min (length xs) (length ys)) ys)"
  by (induction xs ys rule: list_induct2') simp_all

text \<open>
  C6, as the code has it. \<open>batch_update\<close> never compares the two lengths: its effect on the
  store is that of the call on both sequences cut to the shorter length; the surplus of
  the longer one is ignored.
\<close>

theorem batch_update_truncates:
  "snd (batch_update st tree_idx abs_errors) =
   snd (batch_update st (take (min (length tree_idx) (length abs_errors)) tree_idx)
          (take (min (length tree_idx) (length abs_errors)) abs_errors))"
proof -
  define n where "n = min (length tree_idx) (length abs_errors)"
  define ps where "ps = (\<lambda>errs. map (\<lambda>c. np_power c PER_a)
     (map (\<lambda>e. min e absolute_error_upper) (map (\<lambda>e. e + PER_e) errs)))"
  have out: "snd (batch_update st idx errs) =
      (if zip idx (ps errs) = [] then Inr st
       else (case buffer st of
               Deque xs maxlen \<Rightarrow> Inl AttributeError
             | Plain xs \<Rightarrow> Inl AttributeError
             | Tree t \<Rightarrow> (case update_all t (zip idx (ps errs)) of
                            Inl e \<Rightarrow> Inl e
                          | Inr t' \<Rightarrow> Inr (st\<lparr>buffer := Tree t'\<rparr>))))" for idx errs
    unfolding batch_update_def Let_def ps_def by simp
  have "zip tree_idx (ps abs_errors) = zip (take n tree_idx) (take n (ps abs_errors))"
    using zip_take_min [of tree_idx "ps abs_errors"] by (simp add: n_def ps_def)
  also have "take n (ps abs_errors) = ps (take n abs_errors)"
    by (simp add: ps_def take_map)
  finally have "zip tree_idx (ps abs_errors) = zip (take n tree_idx) (ps (take n abs_errors))" .
  then show ?thesis unfolding n_def [symmetric] by (simp only: out)
qed

text \<open>
  Counterexample to C6 as stated: one index and two errors on a fresh prioritized store of capacity 2.
  The call succeeds and updates the one leaf.
\<close>

theorem batch_update_mismatch_counterexample:
  "length [1::nat] \<noteq> length [99 / 100, 5 :: real] \<and>
   snd (batch_update \<lparr>er_capacity = 2, storage_size = 2, include_last = 0, prioritized = True,
          save_experience = False, PER_b = 4 / 10,
          buffer = Tree \<lparr>capacity = 2, tree = [0, 0, 0], data = [None, None :: unit option],
                         data_pointer = 0\<rparr>\<rparr> [1] [99 / 100, 5])
   = Inr \<lparr>er_capacity = 2, storage_size = 2, include_last = 0, prioritized = True,
          save_experience = False, PER_b = 4 / 10,
          buffer = Tree \<lparr>capacity = 2, tree = [1, 1, 0], data = [None, None],
                         data_pointer = 0\<rparr>\<rparr>"
  by (simp add: store_eval)

section \<open>Uniform sampling\<close>

lemma length_pick: "k \<le> length pool \<Longrightarrow> length (pick rnd pool i k) = k"
  by (induction k arbitrary: pool i) (simp_all add: Let_def)

lemma length_pick': "length (pick rnd pool i k) = k"
  by (induction k arbitrary: pool i) (simp_all add: Let_def)

lemma py_get_neg: "i < length xs \<Longrightarrow> py_get xs (- (int i + 1)) = Inr (xs ! (length xs - Suc i))"
  by (auto simp: py_get_def py_index_def nat_diff_distrib' intro: arg_cong [where f = "nth xs"])

lemma py_set_neg: "i < length xs \<Longrightarrow> py_set xs (- (int i + 1)) v = Inr (xs[length xs - Suc i := v])"
  by (auto simp: py_set_def py_index_def intro: arg_cong [where f = "\<lambda>j. xs[j := v]"])

lemma force_last_upt:
  "k \<le> length batch \<Longrightarrow> k \<le> length buf \<Longrightarrow> i \<le> k \<Longrightarrow>
   \<exists>b'. force_last batch buf [i..<k] = Inr b' \<and> length b' = length batch \<and>
     (\<forall>j < length batch. b' ! j =
        (if length batch - k \<le> j \<and> j < length batch - i
         then buf ! (length buf - (length batch - j)) else batch ! j))"
proof (induction "k - i" arbitrary: i batch)
  case 0
  then show ?case by auto
next
  case (Suc d)
  then have ik: "i < k" by simp
  define b1 where "b1 = batch[length batch - Suc i := buf ! (length buf - Suc i)]"
  have l1: "length b1 = length batch" by (simp add: b1_def)
  have step: "force_last batch buf [i..<k] = force_last b1 buf [Suc i..<k]"
  proof -
    have "i < length buf" "i < length batch" using ik Suc.prems by simp_all
    then show ?thesis
      by (simp only: upt_conv_Cons [OF ik] force_last.simps Let_def py_get_neg py_set_neg
            sum.case b1_def)
  qed
  have "d = k - Suc i" using Suc.hyps(2) by simp
  from Suc.hyps(1) [OF this, of b1] Suc.prems ik l1 obtain b' where
    b': "force_last b1 buf [Suc i..<k] = Inr b'" "length b' = length batch"
    "\<And>j. j < length batch \<Longrightarrow> b' ! j =
        (if length batch - k \<le> j \<and> j < length batch - Suc i
         then buf ! (length buf - (length batch - j)) else b1 ! j)"
    by auto
  have "b' ! j = (if length batch - k \<le> j \<and> j < length batch - i
         then buf ! (length buf - (length batch - j)) else batch ! j)" if j: "j < length batch" for j
  proof (cases "j = length batch - Suc i")
    case True
    then have "length batch - j = Suc i" "length batch - k \<le> j" "j < length batch - i"
      "\<not> j < length batch - Suc i" using ik Suc.prems by simp_all
    with True b'(3) [OF j] j show ?thesis by (simp add: b1_def)
  next
    case False
    then have "b1 ! j = batch ! j" by (simp add: b1_def)
    moreover from False have "j < length batch - Suc i \<longleftrightarrow> j < length batch - i" by auto
    ultimately show ?thesis using b'(3) [OF j] by simp
  qed
  with step b'(1,2) show ?case by auto
qed

text \<open>
  C8. In uniform mode with \<open>trace_length = 1\<close> and \<open>include_last \<le> batch_size\<close>, whatever the
  generator draws: if the buffer holds at least \<open>batch_size\<close> records the call returns a
  batch of \<open>batch_size\<close> records whose last \<open>include_last\<close> positions are the
  \<open>include_last\<close> most recent buffer entries in buffer order (most recent last);
  otherwise it raises ValueError.
\<close>

theorem sample_forces_recent:
  assumes uni: "\<not> prioritized st" and buf: "buffer st = Deque xs maxlen"
    and k: "include_last st \<le> batch_size"
  shows "if batch_size \<le> length xs
         then \<exists>batch. sample st batch_size 1 rnd us = Inr (st, Records batch) \<and>
                length batch = batch_size \<and>
                drop (batch_size - include_last st) batch = drop (length xs - include_last st) xs
         else sample st batch_size 1 rnd us = Inl ValueError"
proof (cases "batch_size \<le> length xs")
  case False
  then show ?thesis using uni buf by (simp add: sample_def sample_items_def random_sample_def)
next
  case True
  define b0 where "b0 = pick rnd xs 0 batch_size"
  have l0: "length b0 = batch_size" by (simp add: b0_def length_pick')
  from force_last_upt [of "include_last st" b0 xs 0] k True l0 obtain b' where
    b': "force_last b0 xs [0..<include_last st] = Inr b'" "length b' = batch_size"
    "\<And>j. j < batch_size \<Longrightarrow> b' ! j =
        (if batch_size - include_last st \<le> j then xs ! (length xs - (batch_size - j)) else b0 ! j)"
    by auto
  have s: "sample st batch_size 1 rnd us = Inr (st, Records b')"
    using uni buf True b'(1) by (simp add: sample_def sample_items_def random_sample_def b0_def)
  have "drop (batch_size - include_last st) b' = drop (length xs - include_last st) xs"
  proof (rule nth_equalityI)
    show "length (drop (batch_size - include_last st) b') = length (drop (length xs - include_last st) xs)"
      using b'(2) k True by simp
  next
    fix j assume "j < length (drop (batch_size - include_last st) b')"
    then have j: "j < include_last st" using b'(2) k by simp
    then have "batch_size - include_last st + j < batch_size" using k by simp
    from b'(3) [OF this] have "b' ! (batch_size - include_last st + j) =
        xs ! (length xs - (batch_size - (batch_size - include_last st + j)))" by simp
    moreover have "length xs - (batch_size - (batch_size - include_last st + j))
        = length xs - include_last st + j" using j k True by simp
    ultimately show "drop (batch_size - include_last st) b' ! j = drop (length xs - include_last st) xs ! j"
      using b'(2) k True j by simp
  qed
  with s b'(2) True show ?thesis by auto
qed

theorem sample_forces_recent_witness:
  "\<exists>batch. sample \<lparr>er_capacity = 5, storage_size = 5, include_last = 2, prioritized = False,
          save_experience = False, PER_b = 4 / 10,
          buffer = Deque [10, 20, 30, 40, 50 :: nat] (Some 5)\<rparr> 5 1 first_draws mid_draws
       = Inr (\<lparr>er_capacity = 5, storage_size = 5, include_last = 2, prioritized = False,
          save_experience = False, PER_b = 4 / 10,
          buffer = Deque [10, 20, 30, 40, 50 :: nat] (Some 5)\<rparr>, Records batch) \<and>
       length batch = 5 \<and> drop 3 batch = [40, 50]"
  using sample_forces_recent [of "\<lparr>er_capacity = 5, storage_size = 5, include_last = 2, prioritized = False,
          save_experience = False, PER_b = 4 / 10,
          buffer = Deque [10, 20, 30, 40, 50 :: nat] (Some 5)\<rparr>" "[10, 20, 30, 40, 50]" "Some 5" 5 first_draws mid_draws]
  by simp

section \<open>Prioritized sampling\<close>

lemma init_wf: "SumTree_init cap = Inr t \<Longrightarrow> wf_tree t \<and> capacity t = cap \<and> data_pointer t = 0"
  by (auto simp: SumTree_init_def wf_tree_def sum_inv_def node_ok_def split: if_splits)

lemma SumTree_add_wf:
  assumes "wf_tree t"
  shows "\<exists>t'. SumTree_add t p d = Inr t' \<and> wf_tree t' \<and> capacity t' = capacity t \<and>
           data_pointer t' = Suc (data_pointer t) mod capacity t"
proof -
  define n where "n = capacity t"
  define t0 where "t0 = t\<lparr>data := (data t)[data_pointer t := Some d]\<rparr>"
  from assms have inv: "sum_inv (tree t0) n" and len: "length (data t) = n" and dp: "data_pointer t < n"
    by (simp_all add: wf_tree_def n_def t0_def)
  have leaf: "is_leaf n (data_pointer t + n - 1)" using dp by (auto simp: is_leaf_def)
  from update_sum_inv [OF inv leaf, of p] obtain t1 where
    t1: "update t0 (data_pointer t + n - 1) p = Inr t1" "sum_inv (tree t1) n"
      "capacity t1 = n" "data t1 = data t0" "data_pointer t1 = data_pointer t"
    by (auto simp: t0_def n_def)
  define t' where "t' = t1\<lparr>data_pointer := (if n \<le> data_pointer t + 1 then 0 else data_pointer t + 1)\<rparr>"
  have "SumTree_add t p d = Inr t'"
    using len dp t1 by (simp add: SumTree_add_def Let_def t0_def [symmetric] n_def [symmetric] t'_def)
  moreover have "wf_tree t'" using t1 len dp by (auto simp: wf_tree_def t'_def t0_def)
  moreover have "data_pointer t' = Suc (data_pointer t) mod n"
    using dp by (auto simp: t'_def mod_Suc)
  ultimately show ?thesis using t1 by (auto simp: t'_def n_def)
qed

lemma leaf_priorities_nonempty: "wf_tree t \<Longrightarrow> leaf_priorities t \<noteq> []"
  by (auto simp: wf_tree_def leaf_priorities_drop sum_inv_def)

lemma np_min_Min: "xs \<noteq> [] \<Longrightarrow> np_min xs = Inr (Min (set xs))"
  by (cases xs) (simp_all add: np_min_def Min.set_eq_fold [symmetric])

text \<open>On a well-formed tree the loop never fails; the row it produces for the \<open>i\<close>-th
  segment is determined by the leaf that the descent reaches.\<close>

lemma weighted_draws_wf:
  assumes "wf_tree t"
  shows "weighted_draws t seg total_p b batch_size mw us is =
     Inr (map (\<lambda>i. (get_leaf_loop (tree t) 0 (uniform us i (seg * real i) (seg * real (i + 1))),
                     data t ! (get_leaf_loop (tree t) 0 (uniform us i (seg * real i) (seg * real (i + 1)))
                               - (capacity t - 1)),
                     np_power (real batch_size *
                        (tree t ! get_leaf_loop (tree t) 0 (uniform us i (seg * real i) (seg * real (i + 1)))
                          / total_p)) (- b) / mw)) is)"
  by (induction "is") (simp_all add: get_leaf_wf [OF assms] Let_def)

lemma sample_prioritized:
  assumes "prioritized st" "buffer st = Tree t" "wf_tree t"
  shows "\<exists>idx recs ws.
     sample st batch_size trace_length rnd us =
       Inr (st\<lparr>PER_b := min 1 (PER_b st + PER_b_increment)\<rparr>, Weighted idx recs ws) \<and>
     length idx = batch_size \<and> length recs = batch_size \<and> length ws = batch_size \<and>
     (\<forall>i < batch_size. is_leaf (capacity t) (idx ! i) \<and>
        ws ! i = np_power (real batch_size * (tree t ! (idx ! i) / tree t ! 0))
                   (- min 1 (PER_b st + PER_b_increment))
                 / max_weight_of (Min (set (leaf_priorities t)) / tree t ! 0) batch_size
                     (min 1 (PER_b st + PER_b_increment)))"
proof -
  from assms(3) have ne: "tree t \<noteq> []" by (auto simp: wf_tree_def sum_inv_def)
  have pm: "p_min_of t (tree t ! 0) = Inr (Min (set (leaf_priorities t)) / tree t ! 0)"
    using np_min_Min [OF leaf_priorities_nonempty [OF assms(3)]] by (simp add: p_min_of_def)
  show ?thesis
    using assms(1,2) ne pm get_leaf_wf [OF assms(3)]
    by (simp add: sample_def total_priority_def Let_def weighted_draws_wf [OF assms(3)] comp_def)
qed

text \<open>
  C2, as the code has it. \<open>sample\<close> has no check of its own. With more records asked for
  than \<open>buffer_size\<close> counts, the uniform store fails with the ValueError that
  \<open>random.sample\<close> raises (in both trace branches); the prioritized store returns
  \<open>batch_size\<close> rows and steps \<open>PER_b\<close>.
\<close>

theorem sample_beyond_size:
  assumes "buffer_size st < batch_size"
    and "case buffer st of Tree t \<Rightarrow> prioritized st \<and> wf_tree t
                         | Deque xs maxlen \<Rightarrow> \<not> prioritized st
                         | Plain xs \<Rightarrow> \<not> prioritized st"
  shows "if prioritized st
         then \<exists>idx recs ws.
                sample st batch_size trace_length rnd us =
                  Inr (st\<lparr>PER_b := min 1 (PER_b st + PER_b_increment)\<rparr>, Weighted idx recs ws) \<and>
                length idx = batch_size \<and> length recs = batch_size \<and> length ws = batch_size
         else sample st batch_size trace_length rnd us = Inl ValueError"
proof (cases "buffer st")
  case (Deque xs maxlen)
  with assms show ?thesis
    by (auto simp: sample_def sample_items_def random_sample_def buffer_size_def)
next
  case (Plain xs)
  with assms show ?thesis
    by (auto simp: sample_def sample_items_def random_sample_def buffer_size_def)
next
  case (Tree t)
  with assms(2) have "prioritized st" "wf_tree t" by simp_all
  from sample_prioritized [OF this(1) Tree this(2), of batch_size trace_length rnd us] this(1)
  show ?thesis by auto
qed

text \<open>
  A uniform store with two records, asked for three.
\<close>

theorem sample_beyond_size_witness:
  "sample \<lparr>er_capacity = 5, storage_size = 5, include_last = 0, prioritized = False,
          save_experience = False, PER_b = 4 / 10,
          buffer = Deque [10, 20 :: nat] (Some 5)\<rparr> 3 1 first_draws mid_draws = Inl ValueError"
  using sample_beyond_size [of "\<lparr>er_capacity = 5, storage_size = 5, include_last = 0, prioritized = False,
          save_experience = False, PER_b = 4 / 10,
          buffer = Deque [10, 20 :: nat] (Some 5)\<rparr>" 3 1 first_draws mid_draws]
  by (simp add: buffer_size_def)

text \<open>
  Counterexample to C2 as stated: a prioritized store of capacity 2 with one record, asked for two,
  returns the one record twice.
\<close>

theorem sample_beyond_size_counterexample:
  "add_all \<lparr>er_capacity = 2, storage_size = 2, include_last = 0, prioritized = True,
          save_experience = False, PER_b = 4 / 10,
          buffer = Tree \<lparr>capacity = 2, tree = [0, 0, 0], data = [None, None],
                         data_pointer = 0\<rparr>\<rparr> [()]
     = Inr \<lparr>er_capacity = 2, storage_size = 2, include_last = 0, prioritized = True,
          save_experience = False, PER_b = 4 / 10,
          buffer = Tree \<lparr>capacity = 2, tree = [1, 1, 0], data = [Some (), None],
                         data_pointer = 1\<rparr>\<rparr> \<and>
   buffer_size \<lparr>er_capacity = 2, storage_size = 2, include_last = 0, prioritized = True,
          save_experience = False, PER_b = 4 / 10,
          buffer = Tree \<lparr>capacity = 2, tree = [1, 1, 0], data = [Some (), None],
                         data_pointer = 1\<rparr>\<rparr> = 1 \<and>
   sample \<lparr>er_capacity = 2, storage_size = 2, include_last = 0, prioritized = True,
          save_experience = False, PER_b = 4 / 10,
          buffer = Tree \<lparr>capacity = 2, tree = [1, 1, 0], data = [Some (), None],
                         data_pointer = 1\<rparr>\<rparr> 2 1 first_draws mid_draws
     = Inr (\<lparr>er_capacity = 2, storage_size = 2, include_last = 0, prioritized = True,
          save_experience = False, PER_b = 401 / 1000,
          buffer = Tree \<lparr>capacity = 2, tree = [1, 1, 0], data = [Some (), None],
                         data_pointer = 1\<rparr>\<rparr>,
          Weighted [1, 1] [Some (), Some ()]
            [2 powr - (401 / 1000) * 10000000, 2 powr - (401 / 1000) * 10000000])"
  by (simp add: store_eval upt_rec)

text \<open>
  C5, as the code has it. On a prioritized store whose tree keeps the sum invariant, has
  no negative leaf and a positive total, \<open>sample\<close> returns \<open>batch_size\<close> rows; with \<open>b\<close>
  the exponent after this call's increment, \<open>p_min\<close> is the minimum over all \<open>capacity\<close>
  leaves (written or not) divided by the total, \<open>max_weight\<close> is \<open>1e-7\<close> when \<open>p_min = 0\<close>
  and \<open>(p_min * batch_size) ^ (-b)\<close> otherwise, and the weight of every row with positive
  priority is \<open>(batch_size * P) ^ (-b) / max_weight\<close> for \<open>P = priority / total\<close>.
\<close>

theorem sample_weights:
  assumes "prioritized st" "buffer st = Tree t" "wf_tree t"
    and "\<forall>p \<in> set (leaf_priorities t). 0 \<le> p"
    and "total_priority t = Inr total_p" "0 < total_p"
    and "b = min 1 (PER_b st + PER_b_increment)"
    and "p_min = Min (set (leaf_priorities t)) / total_p"
    and "max_weight = (if p_min = 0 then 1 / 10000000 else (p_min * real batch_size) powr (- b))"
  shows "\<exists>idx recs ws.
     sample st batch_size trace_length rnd us = Inr (st\<lparr>PER_b := b\<rparr>, Weighted idx recs ws) \<and>
     length idx = batch_size \<and> length ws = batch_size \<and>
     (\<forall>i < batch_size. 0 < tree t ! (idx ! i) \<longrightarrow>
        ws ! i = (real batch_size * (tree t ! (idx ! i) / total_p)) powr (- b) / max_weight)"
proof -
  from assms(5) have root: "tree t ! 0 = total_p"
    by (auto simp: total_priority_def split: if_splits)
  from sample_prioritized [OF assms(1-3), of batch_size trace_length rnd us]
  show ?thesis
    unfolding root assms(7) [symmetric] assms(8) [symmetric] max_weight_of_def np_power_def
      assms(9) [symmetric]
    by blast
qed

theorem sample_weights_witness:
  "\<exists>idx recs ws.
     sample \<lparr>er_capacity = 2, storage_size = 2, include_last = 0, prioritized = True,
          save_experience = False, PER_b = 4 / 10,
          buffer = Tree \<lparr>capacity = 2, tree = [2, 1, 1], data = [Some (), Some ()],
                         data_pointer = 0\<rparr>\<rparr> 2 1 first_draws mid_draws
       = Inr (\<lparr>er_capacity = 2, storage_size = 2, include_last = 0, prioritized = True,
          save_experience = False, PER_b = 4 / 10,
          buffer = Tree \<lparr>capacity = 2, tree = [2, 1, 1], data = [Some (), Some ()],
                         data_pointer = 0\<rparr>\<rparr>\<lparr>PER_b := 401 / 1000\<rparr>, Weighted idx recs ws) \<and>
     length idx = 2 \<and> length ws = 2 \<and>
     (\<forall>i < 2. 0 < tree \<lparr>capacity = 2, tree = [2, 1, 1], data = [Some (), Some ()],
                          data_pointer = 0\<rparr> ! (idx ! i) \<longrightarrow>
        ws ! i = (real 2 * (tree \<lparr>capacity = 2, tree = [2, 1, 1], data = [Some (), Some ()],
                                   data_pointer = 0\<rparr> ! (idx ! i) / 2)) powr - (401 / 1000)
                 / ((1 / 2 * real 2) powr - (401 / 1000)))"
  by (rule sample_weights [where p_min = "1 / 2"])
     (simp_all add: tree_eval leaf_priorities_def py_last_n_def total_priority_def
        PER_b_increment_def)

text \<open>
  Counterexample to C5 as stated: in a store of capacity 2 with one record the only written leaf has
  probability 1, yet \<open>p_min\<close> is 0 (the empty leaf counts), \<open>max_weight\<close> is \<open>1e-7\<close> and
  the weight returned is \<open>10^7\<close>, not 1.
\<close>

theorem sample_weights_counterexample:
  "data \<lparr>capacity = 2, tree = [1, 1, 0], data = [Some (), None], data_pointer = 1\<rparr>
     = [Some (), None] \<and>
   leaf_priorities \<lparr>capacity = 2, tree = [1, 1, 0], data = [Some (), None], data_pointer = 1\<rparr>
     = [1, 0] \<and>
   p_min_of \<lparr>capacity = 2, tree = [1, 1, 0], data = [Some (), None], data_pointer = 1\<rparr> 1
     = Inr 0 \<and>
   sample \<lparr>er_capacity = 2, storage_size = 2, include_last = 0, prioritized = True,
          save_experience = False, PER_b = 4 / 10,
          buffer = Tree \<lparr>capacity = 2, tree = [1, 1, 0], data = [Some (), None],
                         data_pointer = 1\<rparr>\<rparr> 1 1 first_draws mid_draws
     = Inr (\<lparr>er_capacity = 2, storage_size = 2, include_last = 0, prioritized = True,
          save_experience = False, PER_b = 401 / 1000,
          buffer = Tree \<lparr>capacity = 2, tree = [1, 1, 0], data = [Some (), None],
                         data_pointer = 1\<rparr>\<rparr>,
          Weighted [1] [Some ()] [10000000]) \<and>
   (10000000 :: real) \<noteq>
     (real 1 * (1 / 1)) powr - (401 / 1000) / ((1 / 1 * real 1) powr - (401 / 1000))"
  by (simp add: store_eval)

section \<open>The size of the store\<close>

lemma add_uniform:
  assumes "\<not> prioritized st" "buffer st = Deque ys (Some cap)" "er_capacity st = cap" "length ys \<le> cap"
  shows "add st x = Inr (st\<lparr>buffer := Deque (drop (length ys + 1 - cap) (ys @ [x])) (Some cap)\<rparr>)"
  using assms by (simp add: add_def deque_append_def Let_def)

lemma add_all_uniform:
  "\<not> prioritized st \<Longrightarrow> buffer st = Deque ys (Some cap) \<Longrightarrow> er_capacity st = cap \<Longrightarrow>
   length ys \<le> cap \<Longrightarrow>
   add_all st xs = Inr (st\<lparr>buffer := Deque (drop (length (ys @ xs) - cap) (ys @ xs)) (Some cap)\<rparr>)"
proof (induction xs arbitrary: st ys)
  case Nil
  then show ?case by simp
next
  case (Cons x xs)
  define d where "d = length ys + 1 - cap"
  define ys' where "ys' = drop d (ys @ [x])"
  define st' where "st' = st\<lparr>buffer := Deque ys' (Some cap)\<rparr>"
  have a: "add st x = Inr st'"
    using add_uniform [OF Cons.prems] by (simp add: st'_def ys'_def d_def)
  have l: "length ys' \<le> cap" using Cons.prems(4) by (simp add: ys'_def d_def)
  have "add_all st' xs = Inr (st'\<lparr>buffer := Deque (drop (length (ys' @ xs) - cap) (ys' @ xs)) (Some cap)\<rparr>)"
    using Cons.prems l by (intro Cons.IH) (simp_all add: st'_def)
  moreover have "drop (length (ys' @ xs) - cap) (ys' @ xs) = drop (length (ys @ x # xs) - cap) (ys @ x # xs)"
  proof -
    have d1: "d \<le> 1" "d \<le> length (ys @ [x])" using Cons.prems(4) by (simp_all add: d_def)
    have "drop d ((ys @ [x]) @ xs) = drop d (ys @ [x]) @ xs"
      by (subst drop_append) (use d1 in simp)
    then have e: "ys' @ xs = drop d (ys @ x # xs)" by (simp add: ys'_def)
    define zs where "zs = ys @ x # xs"
    have "length (drop d zs) - cap + d = length zs - cap"
      using Cons.prems(4) by (auto simp: zs_def d_def)
    then have "drop (length (drop d zs) - cap) (drop d zs) = drop (length zs - cap) zs"
      by (simp only: drop_drop)
    then show ?thesis unfolding e zs_def .
  qed
  ultimately show ?case using a by (simp add: st'_def)
qed

text \<open>
  In uniform mode, after the additions \<open>xs\<close> to a fresh store the size is
  \<open>min (length xs) cap\<close> and the buffer holds the last \<open>cap\<close> of them in order of
  arrival, so the oldest are evicted first.
\<close>

theorem uniform_size_and_eviction:
  assumes "ExperienceReplay_init sv False cap ss nl = Inr st0"
  shows "\<exists>st. add_all st0 xs = Inr st \<and> buffer_size st = min (length xs) cap \<and>
           buffer st = Deque (drop (length xs - cap) xs) (Some cap)"
proof -
  from init_fields [OF assms] have f: "\<not> prioritized st0" "buffer st0 = Deque [] (Some cap)"
    "er_capacity st0 = cap" by auto
  from add_all_uniform [OF f, of xs] show ?thesis by (auto simp: buffer_size_def)
qed

lemma add_prioritized:
  assumes "prioritized st" "buffer st = Tree t" "wf_tree t"
  shows "\<exists>t'. add st x = Inr (st\<lparr>buffer := Tree t'\<rparr>) \<and> wf_tree t' \<and> capacity t' = capacity t \<and>
           data_pointer t' = Suc (data_pointer t) mod capacity t"
proof -
  from leaf_priorities_nonempty [OF assms(3)] obtain m where
    m: "np_max (leaf_priorities t) = Inr m" by (cases "leaf_priorities t") (auto simp: np_max_def)
  from SumTree_add_wf [OF assms(3), of "if m = 0 then absolute_error_upper else m" x]
  obtain t' where "SumTree_add t (if m = 0 then absolute_error_upper else m) x = Inr t'"
    "wf_tree t'" "capacity t' = capacity t" "data_pointer t' = Suc (data_pointer t) mod capacity t"
    by blast
  with assms m show ?thesis by (auto simp: add_def Let_def intro!: exI [of _ t'])
qed

lemma add_all_prioritized:
  "prioritized st \<Longrightarrow> buffer st = Tree t \<Longrightarrow> wf_tree t \<Longrightarrow>
   \<exists>st' t'. add_all st xs = Inr st' \<and> buffer st' = Tree t' \<and> wf_tree t' \<and>
      capacity t' = capacity t \<and> data_pointer t' = (data_pointer t + length xs) mod capacity t"
proof (induction xs arbitrary: st t)
  case Nil
  then show ?case by (simp add: wf_tree_def)
next
  case (Cons x xs)
  from add_prioritized [OF Cons.prems, of x] obtain t1 where
    t1: "add st x = Inr (st\<lparr>buffer := Tree t1\<rparr>)" "wf_tree t1" "capacity t1 = capacity t"
      "data_pointer t1 = Suc (data_pointer t) mod capacity t" by blast
  from Cons.IH [of "st\<lparr>buffer := Tree t1\<rparr>" t1] Cons.prems(1) t1 obtain st' t' where
    "add_all (st\<lparr>buffer := Tree t1\<rparr>) xs = Inr st'" "buffer st' = Tree t'" "wf_tree t'"
    "capacity t' = capacity t"
    "data_pointer t' = (Suc (data_pointer t) mod capacity t + length xs) mod capacity t"
    by auto
  with t1(1) show ?case by (simp add: mod_add_left_eq)
qed

text \<open>
  C1, prioritized mode. After \<open>n\<close> \<open>add\<close> calls on a fresh prioritized store of capacity
  \<open>cap\<close> every call has succeeded and \<open>buffer_size\<close> is \<open>n mod cap\<close>: the insertion
  pointer, which returns to 0 when the ring wraps. It is not \<open>n\<close> at \<open>n = cap\<close> and not
  \<open>cap\<close> beyond.
\<close>

theorem prioritized_size_wraps:
  assumes "ExperienceReplay_init sv True cap ss nl = Inr st0"
  shows "\<exists>st. add_all st0 xs = Inr st \<and> buffer_size st = length xs mod cap"
proof -
  from init_fields [OF assms] obtain t0 where
    t0: "prioritized st0" "SumTree_init cap = Inr t0" "buffer st0 = Tree t0" by auto
  from init_wf [OF t0(2)] have w: "wf_tree t0" "capacity t0 = cap" "data_pointer t0 = 0" by simp_all
  from add_all_prioritized [OF t0(1,3) w(1), of xs] w(2,3) show ?thesis
    by (auto simp: buffer_size_def)
qed

text \<open>
  Two additions to a prioritized store of capacity 2 leave \<open>buffer_size = 0\<close>.
\<close>

theorem prioritized_size_wraps_witness:
  "\<exists>st. add_all \<lparr>er_capacity = 2, storage_size = 5000, include_last = 3, prioritized = True,
              save_experience = False, PER_b = 4 / 10,
              buffer = Tree \<lparr>capacity = 2, tree = [0, 0, 0], data = [None, None],
                             data_pointer = 0\<rparr>\<rparr> [(), ()] = Inr st \<and>
        buffer_size st = 0"
  using prioritized_size_wraps [of False 2 5000 3 _ "[(), ()]"]
  by (simp add: ExperienceReplay_init_def SumTree_init_def PER_b0_def eval_nat_numeral)

section \<open>Persistence\<close>

text \<open>
  C9. In uniform mode with persistence enabled, \<open>save\<close> writes exactly the last
  \<open>storage_size\<close> records when the buffer holds at least that many. With fewer records
  the start of the slice is negative: \<open>islice\<close> raises ValueError, after the previous
  file has been removed.
\<close>

theorem save_uniform:
  assumes "\<not> prioritized st" "save_experience st" "buffer st = Deque xs maxlen"
  shows "save st disk =
           (if length xs < storage_size st then (None, Inl ValueError)
            else (Some (Plain (drop (length xs - storage_size st) xs)), Inr ()))"
proof -
  have e: "nat (int (length xs) - int (storage_size st)) = length xs - storage_size st"
    by arith
  show ?thesis using assms by (auto simp: save_def islice_def buffer_size_def e)
qed

text \<open>
  The default configuration (capacity 10000, storage size 5000) with three records: the
  call fails and the snapshot that was on disk is gone.
\<close>

theorem save_uniform_witness:
  "save \<lparr>er_capacity = 10000, storage_size = 5000, include_last = 3, prioritized = False,
          save_experience = True, PER_b = 4 / 10,
          buffer = Deque [(), (), ()] (Some 10000)\<rparr> (Some (Plain [(), (), (), ()]))
     = (None, Inl ValueError)"
  using save_uniform [of "\<lparr>er_capacity = 10000, storage_size = 5000, include_last = 3, prioritized = False,
          save_experience = True, PER_b = 4 / 10,
          buffer = Deque [(), (), ()] (Some 10000)\<rparr>" "[(), (), ()]" "Some 10000" "Some (Plain [(), (), (), ()])"]
  by simp

end
